theory Spec2Isabelle
  imports Main "HOL-Library.Word" "HOL-Library.Multiset"
begin

section \<open>Byte views (geecache/byteview.go)\<close>

text \<open>
  A Go \<^verbatim>\<open>[]byte\<close> is a list of 8-bit words. A \<^verbatim>\<open>nil\<close> slice and an empty slice have the
  same length and the same contents and are both the empty list. The builtins
  \<^verbatim>\<open>make\<close> and \<^verbatim>\<open>copy\<close> are written out: \<^verbatim>\<open>copy(dst, src)\<close> overwrites the first
  \<^verbatim>\<open>min(len(dst), len(src))\<close> cells of \<^verbatim>\<open>dst\<close>.
\<close>

type_synonym byte = "8 word"

record ByteView =
  b :: "byte list"

definition Len :: "ByteView \<Rightarrow> int" where
  "Len v = int (length (b v))"

definition make_bytes :: "nat \<Rightarrow> byte list" where
  "make_bytes n = replicate n 0"

definition copy :: "byte list \<Rightarrow> byte list \<Rightarrow> byte list" where
  "copy dst src = (let n = min (length dst) (length src) in take n src @ drop n dst)"

definition cloneBytes :: "byte list \<Rightarrow> byte list" where
  "cloneBytes bs = (let c = make_bytes (length bs) in copy c bs)"

definition ByteSlice :: "ByteView \<Rightarrow> byte list" where
  "ByteSlice v = cloneBytes (b v)"

section \<open>The LRU engine (package lru)\<close>

text \<open>
  \<^verbatim>\<open>container/list\<close> is a doubly linked list of heap nodes, and the index
  \<^verbatim>\<open>map[string]*list.Element\<close> holds pointers to these nodes. The model keeps the
  pointers: an \<open>Element\<close> is a handle, \<open>ll\<close> is the sequence of handles from the
  front (most recently used) to the back, \<open>elems\<close> is the store that gives the
  \<^verbatim>\<open>*entry\<close> behind a handle, and \<open>nextElem\<close> is the next handle \<^verbatim>\<open>PushFront\<close>
  allocates. An \<^verbatim>\<open>entry\<close> has the fields \<^verbatim>\<open>key\<close> and \<^verbatim>\<open>value\<close>, read by \<open>entry_key\<close> and
  \<open>entry_value\<close>. The interface \<^verbatim>\<open>Value\<close> has one method, \<^verbatim>\<open>Len() int\<close>; the values the
  repository stores are byte views, and the model stores them directly.

  \<^verbatim>\<open>OnEvicted\<close> is \<open>None\<close> for a \<^verbatim>\<open>nil\<close> callback; for an installed callback it is
  \<open>Some\<close> of the calls the callback has received, in order. The callback observes: it
  does not call back into the engine. \<^verbatim>\<open>New(maxBytes, onEvicted)\<close> takes whether a callback
  is installed.

  \<^verbatim>\<open>maxBytes\<close> and \<^verbatim>\<open>nowBytes\<close> are \<^verbatim>\<open>int64\<close>. They are integers here: \<^verbatim>\<open>nowBytes\<close> only
  ever adds and subtracts lengths of keys and values that are resident in memory,
  which stay far below \<open>2^63\<close>.
\<close>

type_synonym Element = nat

datatype entry = Entry (entry_key: string) (entry_value: ByteView)

record Cache =
  maxBytes :: int
  nowBytes :: int
  ll :: "Element list"
  cache :: "string \<rightharpoonup> Element"
  OnEvicted :: "(string \<times> ByteView) list option"
  elems :: "Element \<Rightarrow> entry"
  nextElem :: Element

text \<open>The four operations of \<^verbatim>\<open>container/list\<close> the engine uses. \<^verbatim>\<open>MoveToFront\<close> and
  \<^verbatim>\<open>Remove\<close> leave the list alone when the element is not in it.\<close>

definition list_MoveToFront :: "Element list \<Rightarrow> Element \<Rightarrow> Element list" where
  "list_MoveToFront l e = (if e \<in> set l then e # remove1 e l else l)"

definition list_Back :: "Element list \<Rightarrow> Element option" where
  "list_Back l = (if l = [] then None else Some (last l))"

definition list_Remove :: "Element list \<Rightarrow> Element \<Rightarrow> Element list" where
  "list_Remove l e = remove1 e l"

definition list_PushFront :: "Element list \<Rightarrow> Element \<Rightarrow> Element list" where
  "list_PushFront l e = e # l"

definition New :: "int \<Rightarrow> bool \<Rightarrow> Cache" where
  "New mb onEvicted =
     \<lparr> maxBytes = mb, nowBytes = 0, ll = [], cache = Map.empty,
       OnEvicted = (if onEvicted then Some [] else None),
       elems = (\<lambda>_. Entry [] \<lparr> b = [] \<rparr>), nextElem = 0 \<rparr>"

definition Cache_Get :: "Cache \<Rightarrow> string \<Rightarrow> ByteView option \<times> Cache" where
  "Cache_Get c k =
     (case cache c k of
        Some ele \<Rightarrow>
          (let c1 = c \<lparr> ll := list_MoveToFront (ll c) ele \<rparr>;
               kv = elems c1 ele
           in (Some (entry_value kv), c1))
      | None \<Rightarrow> (None, c))"

definition RemoveOldest :: "Cache \<Rightarrow> Cache" where
  "RemoveOldest c =
     (case list_Back (ll c) of
        Some ele \<Rightarrow>
          (let kv = elems c ele
           in c \<lparr> ll := list_Remove (ll c) ele,
                  cache := (cache c)(entry_key kv := None),
                  nowBytes := nowBytes c - (int (length (entry_key kv)) + Len (entry_value kv)),
                  OnEvicted := map_option (\<lambda>calls. calls @ [(entry_key kv, entry_value kv)])
                                 (OnEvicted c) \<rparr>)
      | None \<Rightarrow> c)"

text \<open>The \<^verbatim>\<open>for\<close> loop that ends \<^verbatim>\<open>Add\<close>. It does not return from every state (on an
  empty list \<^verbatim>\<open>RemoveOldest\<close> changes nothing), so not returning is the value \<open>None\<close>.\<close>

partial_function (option) Add_evict :: "Cache \<Rightarrow> Cache option" where
  "Add_evict c =
     (if maxBytes c \<noteq> 0 \<and> maxBytes c < nowBytes c
      then Add_evict (RemoveOldest c)
      else Some c)"

declare Add_evict.simps [code]

text \<open>\<^verbatim>\<open>Add\<close> is its \<^verbatim>\<open>if\<close>/\<^verbatim>\<open>else\<close> statement, \<open>Add_insert\<close>, followed by its loop.\<close>

definition Add_insert :: "Cache \<Rightarrow> string \<Rightarrow> ByteView \<Rightarrow> Cache" where
  "Add_insert c k v =
     (case cache c k of
        Some ele \<Rightarrow>
          (let kv = elems c ele
           in c \<lparr> ll := list_MoveToFront (ll c) ele,
                  nowBytes := nowBytes c + (Len v - Len (entry_value kv)),
                  elems := (elems c)(ele := Entry (entry_key kv) v) \<rparr>)
      | None \<Rightarrow>
          (let ele = nextElem c
           in c \<lparr> ll := list_PushFront (ll c) ele,
                  elems := (elems c)(ele := Entry k v),
                  nextElem := Suc ele,
                  cache := (cache c)(k \<mapsto> ele),
                  nowBytes := nowBytes c + (int (length k) + Len v) \<rparr>))"

definition Cache_Add :: "Cache \<Rightarrow> string \<Rightarrow> ByteView \<Rightarrow> Cache option" where
  "Cache_Add c k v = Add_evict (Add_insert c k v)"

definition Cache_Len :: "Cache \<Rightarrow> int" where
  "Cache_Len c = int (length (ll c))"

subsection \<open>Resident entries and the state invariants\<close>

text \<open>The entries that are resident, front first, and the weight the engine
  charges for one.\<close>

definition resident :: "Cache \<Rightarrow> entry list" where
  "resident c = map (elems c) (ll c)"

definition weight :: "entry \<Rightarrow> int" where
  "weight kv = int (length (entry_key kv)) + Len (entry_value kv)"

text \<open>\<open>linked\<close>: the index and the list describe the same nodes. Every handle in the
  list is allocated and occurs once, and the index maps a key to a handle exactly when
  that handle is in the list and carries the key.\<close>

definition linked :: "Cache \<Rightarrow> bool" where
  "linked c \<longleftrightarrow>
     distinct (ll c) \<and>
     (\<forall>e \<in> set (ll c). e < nextElem c) \<and>
     (\<forall>k e. cache c k = Some e \<longleftrightarrow> e \<in> set (ll c) \<and> entry_key (elems c e) = k)"

text \<open>\<open>counted\<close>: \<^verbatim>\<open>nowBytes\<close> is the total weight of the resident entries.\<close>

definition counted :: "Cache \<Rightarrow> bool" where
  "counted c \<longleftrightarrow> nowBytes c = sum_list (map weight (resident c))"

text \<open>Sequences of \<^verbatim>\<open>Add\<close> and \<^verbatim>\<open>Get\<close> calls on one engine.\<close>

datatype op = OpAdd string ByteView | OpGet string

fun run_ops :: "Cache \<Rightarrow> op list \<Rightarrow> Cache option" where
  "run_ops c [] = Some c"
| "run_ops c (OpAdd k v # ops) =
     (case Cache_Add c k v of None \<Rightarrow> None | Some c1 \<Rightarrow> run_ops c1 ops)"
| "run_ops c (OpGet k # ops) = run_ops (snd (Cache_Get c k)) ops"

text \<open>The calls an eviction callback receives for a list of entries.\<close>

definition calls_of :: "entry list \<Rightarrow> (string \<times> ByteView) list" where
  "calls_of es = map (\<lambda>kv. (entry_key kv, entry_value kv)) es"

subsection \<open>The engine as the specification words it\<close>

text \<open>
  The specification describes the engine as a recency sequence of entries with a byte
  total and a ceiling. \<open>abs_of\<close> reads that view off a state of the code. The
  definitions \<open>spec_insert\<close>, \<open>spec_evict_tail\<close>, \<open>spec_evict_while\<close> and \<open>spec_Add\<close>
  follow the specification's words for \<^verbatim>\<open>Add\<close>, not the code: a present key has its value
  replaced and its entry promoted to the front, with the total adjusted by the
  difference of the value lengths; an absent key gets a new entry at the front, with
  the total increased by the weight; then the tail is evicted while
  \<open>max_bytes > 0\<close> and \<open>now_bytes > max_bytes\<close>.
\<close>

record lru_spec =
  entries :: "entry list"
  now_bytes :: int
  max_bytes :: int

definition abs_of :: "Cache \<Rightarrow> lru_spec" where
  "abs_of c = \<lparr> entries = resident c, now_bytes = nowBytes c, max_bytes = maxBytes c \<rparr>"

definition spec_evict_tail :: "lru_spec \<Rightarrow> lru_spec" where
  "spec_evict_tail a =
     (if entries a = [] then a
      else a \<lparr> entries := butlast (entries a),
               now_bytes := now_bytes a - weight (last (entries a)) \<rparr>)"

partial_function (option) spec_evict_while :: "lru_spec \<Rightarrow> lru_spec option" where
  "spec_evict_while a =
     (if 0 < max_bytes a \<and> max_bytes a < now_bytes a
      then spec_evict_while (spec_evict_tail a)
      else Some a)"

declare spec_evict_while.simps [code]

definition spec_insert :: "lru_spec \<Rightarrow> string \<Rightarrow> ByteView \<Rightarrow> lru_spec" where
  "spec_insert a k v =
     (case find (\<lambda>kv. entry_key kv = k) (entries a) of
        Some old \<Rightarrow>
          a \<lparr> entries := Entry k v # filter (\<lambda>kv. entry_key kv \<noteq> k) (entries a),
              now_bytes := now_bytes a + (Len v - Len (entry_value old)) \<rparr>
      | None \<Rightarrow>
          a \<lparr> entries := Entry k v # entries a,
              now_bytes := now_bytes a + (int (length k) + Len v) \<rparr>)"

definition spec_Add :: "lru_spec \<Rightarrow> string \<Rightarrow> ByteView \<Rightarrow> lru_spec option" where
  "spec_Add a k v = spec_evict_while (spec_insert a k v)"

text \<open>A state with two resident entries, \<^verbatim>\<open>b\<close> in front of \<^verbatim>\<open>a\<close>, that fills a ceiling
  of 10 bytes.\<close>

definition example_cache :: Cache where
  "example_cache = \<lparr> maxBytes = 10, nowBytes = 10, ll = [1, 0],
            cache = [''a'' \<mapsto> 0, ''b'' \<mapsto> 1], OnEvicted = None,
            elems = (\<lambda>_. Entry [] \<lparr> b = [] \<rparr>)
                      (0 := Entry ''a'' \<lparr> b = [1, 2, 3, 4] \<rparr>, 1 := Entry ''b'' \<lparr> b = [5, 6, 7, 8] \<rparr>),
            nextElem = 2 \<rparr>"

section \<open>The consistent-hash ring (package consistenthash)\<close>

text \<open>
  \<^verbatim>\<open>Hash\<close> is \<^verbatim>\<open>func(data []byte) uint32\<close>; keys are strings, and the code hashes the
  bytes of \<^verbatim>\<open>strconv.Itoa(i) + key\<close>. \<^verbatim>\<open>int(m.hash(...))\<close> is the value of the 32-bit word
  as a (64-bit) integer. \<^verbatim>\<open>keys\<close> is the ring, \<^verbatim>\<open>hashMap\<close> maps a virtual node's hash
  to its real node.
\<close>

type_synonym Hash = "string \<Rightarrow> 32 word"

record Map =
  hash :: Hash
  replicas :: int
  keys :: "int list"
  hashMap :: "int \<rightharpoonup> string"

text \<open>\<^verbatim>\<open>strconv.Itoa\<close>: the decimal digits of an integer, with a sign when negative.\<close>

definition digit_char :: "nat \<Rightarrow> char" where
  "digit_char d = char_of (48 + d)"

fun Itoa_nat :: "nat \<Rightarrow> string" where
  "Itoa_nat n = (if n < 10 then [digit_char n] else Itoa_nat (n div 10) @ [digit_char (n mod 10)])"

declare Itoa_nat.simps [simp del]

definition Itoa :: "int \<Rightarrow> string" where
  "Itoa i = (if i < 0 then CHR ''-'' # Itoa_nat (nat (- i)) else Itoa_nat (nat i))"

text \<open>
  \<^verbatim>\<open>sort.Search(n, f)\<close> of the Go library is a binary search: it keeps \<open>i \<le> j\<close>,
  probes the midpoint \<open>h\<close> and continues in \<open>[h + 1, j)\<close> when \<open>f h\<close> is false and in
  \<open>[i, h)\<close> otherwise. \<^verbatim>\<open>sort.SearchInts(a, x)\<close> is \<^verbatim>\<open>Search\<close> with \<open>f i = (a[i] \<ge> x)\<close>, and
  \<^verbatim>\<open>sort.Ints\<close> sorts in ascending order.
\<close>

function Search_loop :: "nat \<Rightarrow> nat \<Rightarrow> (nat \<Rightarrow> bool) \<Rightarrow> nat" where
  "Search_loop i j f =
     (if i < j
      then (let h = (i + j) div 2
            in if \<not> f h then Search_loop (h + 1) j f else Search_loop i h f)
      else i)"
  by pat_completeness auto
termination
  by (relation "measure (\<lambda>(i, j, f). j - i)") auto

declare Search_loop.simps [simp del]

definition Search :: "nat \<Rightarrow> (nat \<Rightarrow> bool) \<Rightarrow> nat" where
  "Search n f = Search_loop 0 n f"

definition SearchInts :: "int list \<Rightarrow> int \<Rightarrow> nat" where
  "SearchInts a x = Search (length a) (\<lambda>i. x \<le> a ! i)"

text \<open>\<^verbatim>\<open>New(replicas, fn)\<close>: a \<^verbatim>\<open>nil\<close> hash function stands for \<^verbatim>\<open>crc32.ChecksumIEEE\<close> of
  the Go library, which the model takes as its first argument.\<close>

definition Map_New :: "Hash \<Rightarrow> int \<Rightarrow> Hash option \<Rightarrow> Map" where
  "Map_New crc32_ChecksumIEEE n fn =
     \<lparr> hash = (case fn of None \<Rightarrow> crc32_ChecksumIEEE | Some f \<Rightarrow> f),
       replicas = n, keys = [], hashMap = Map.empty \<rparr>"

text \<open>\<^verbatim>\<open>Add\<close>: for every key, the body of the inner loop is \<open>Add_replica\<close>, run for
  \<open>i = 0, \<dots>, replicas - 1\<close>; the ring is sorted at the end.\<close>

definition Add_replica :: "string \<Rightarrow> nat \<Rightarrow> Map \<Rightarrow> Map" where
  "Add_replica key i m =
     (let h = uint (hash m (Itoa (int i) @ key))
      in m \<lparr> keys := keys m @ [h], hashMap := (hashMap m)(h \<mapsto> key) \<rparr>)"

definition Map_Add :: "Map \<Rightarrow> string list \<Rightarrow> Map" where
  "Map_Add m ks =
     (let m1 = fold (\<lambda>key m. fold (Add_replica key) [0..<nat (replicas m)] m) ks m
      in m1 \<lparr> keys := sort (keys m1) \<rparr>)"

text \<open>\<^verbatim>\<open>Remove\<close>: the slice expression \<^verbatim>\<open>m.keys[idx+1:]\<close> panics when \<open>idx + 1\<close> exceeds
  the length, which happens when the search finds no element \<open>\<ge> hash\<close>.\<close>

datatype panic = SliceBoundsOutOfRange

fun Remove_loop :: "Map \<Rightarrow> string \<Rightarrow> nat list \<Rightarrow> panic + Map" where
  "Remove_loop m key [] = Inr m"
| "Remove_loop m key (i # is) =
     (let h = uint (hash m (Itoa (int i) @ key));
          idx = SearchInts (keys m) h
      in if length (keys m) < idx + 1 then Inl SliceBoundsOutOfRange
         else Remove_loop
                (m \<lparr> keys := take idx (keys m) @ drop (idx + 1) (keys m),
                     hashMap := (hashMap m)(h := None) \<rparr>) key is)"

definition Map_Remove :: "Map \<Rightarrow> string \<Rightarrow> panic + Map" where
  "Map_Remove m key = Remove_loop m key [0..<nat (replicas m)]"

text \<open>Reading \<^verbatim>\<open>m.hashMap[h]\<close>: a missing key reads as the empty string.\<close>

definition hashMap_at :: "Map \<Rightarrow> int \<Rightarrow> string" where
  "hashMap_at m h = (case hashMap m h of None \<Rightarrow> [] | Some peer \<Rightarrow> peer)"

definition Map_Get :: "Map \<Rightarrow> string \<Rightarrow> string" where
  "Map_Get m key =
     (if length (keys m) = 0 then []
      else (let h = uint (hash m key);
                idx = Search (length (keys m)) (\<lambda>i. h \<le> keys m ! i)
            in hashMap_at m (keys m ! (idx mod length (keys m)))))"

text \<open>The hashes of the virtual nodes of a real node \<open>p\<close>, for \<open>i = 0, \<dots>, replicas - 1\<close>.\<close>

definition vnodes :: "Map \<Rightarrow> string \<Rightarrow> int list" where
  "vnodes m p = map (\<lambda>i. uint (hash m (Itoa (int i) @ p))) [0..<nat (replicas m)]"

text \<open>A ring of one real node \<^verbatim>\<open>A\<close> with three replicas, under a hash that adds up the
  character codes: the virtual nodes \<^verbatim>\<open>0A\<close>, \<^verbatim>\<open>1A\<close>, \<^verbatim>\<open>2A\<close> hash to 113, 114, 115.\<close>

definition example_hash :: Hash where
  "example_hash s = of_nat (sum_list (map of_char s))"

definition example_ring :: Map where
  "example_ring = \<lparr> hash = example_hash, replicas = 3, keys = [113, 114, 115],
                     hashMap = [113 \<mapsto> ''A'', 114 \<mapsto> ''A'', 115 \<mapsto> ''A''] \<rparr>"


section \<open>Groups, peers and the HTTP server (package geecache)\<close>

text \<open>
  A Go \<^verbatim>\<open>error\<close> is a value with a message, \<^verbatim>\<open>err.Error()\<close>. A pair \<^verbatim>\<open>([]byte, error)\<close>
  returned by a collaborator is read as the code reads it: \<open>Inl err\<close> when
  \<^verbatim>\<open>err != nil\<close>, \<open>Inr bytes\<close> otherwise. Locks are not modelled (one call runs at a time),
  and neither is logging.
\<close>

datatype error = Err (Error: string)

text \<open>
  Modelled from the spec: the type \<^verbatim>\<open>cache\<close> of \<^verbatim>\<open>mainCache\<close> and its methods \<^verbatim>\<open>add\<close> and
  \<^verbatim>\<open>get\<close> are not among the sources. The specification (section 4.B) says: the shell
  holds \<^verbatim>\<open>cacheBytes\<close> and an optional LRU engine; on the first \<^verbatim>\<open>add\<close> it creates the engine
  with the configured ceiling (and no eviction callback), then adds; \<^verbatim>\<open>get\<close> on an
  uninitialised engine returns a miss without constructing one, and otherwise asks the
  engine.
\<close>

record cache_shell =
  cacheBytes :: int
  lru :: "Cache option"

definition cache_add :: "cache_shell \<Rightarrow> string \<Rightarrow> ByteView \<Rightarrow> cache_shell option" where
  "cache_add s k v =
     (let c = (case lru s of None \<Rightarrow> New (cacheBytes s) False | Some c \<Rightarrow> c)
      in map_option (\<lambda>c1. s \<lparr> lru := Some c1 \<rparr>) (Cache_Add c k v))"

definition cache_get :: "cache_shell \<Rightarrow> string \<Rightarrow> ByteView option \<times> cache_shell" where
  "cache_get s k =
     (case lru s of
        None \<Rightarrow> (None, s)
      | Some c \<Rightarrow> (case Cache_Get c k of (r, c1) \<Rightarrow> (r, s \<lparr> lru := Some c1 \<rparr>)))"

text \<open>
  The loader (\<^verbatim>\<open>Getter\<close>) is declared in the sources. Modelled from the spec: the
  interfaces \<^verbatim>\<open>PeerPicker\<close> and \<^verbatim>\<open>PeerClient\<close> are declared outside the sources; by
  section 6, \<^verbatim>\<open>PickPeer(key)\<close> returns a peer client and whether one was selected, and a
  peer client's \<^verbatim>\<open>Get(group, key)\<close> returns bytes or an error. The collaborators are
  functions of their arguments. A \<open>call\<close> records one call to a collaborator, so that a
  result can say which of them were consulted, in which order.
\<close>

type_synonym Getter = "string \<Rightarrow> error + byte list"
type_synonym PeerClient = "string \<Rightarrow> string \<Rightarrow> error + byte list"
type_synonym PeerPicker = "string \<Rightarrow> PeerClient option"

datatype call = CallPickPeer string | CallPeerGet string string | CallGetter string

record Group =
  name :: string
  getter :: Getter
  mainCache :: cache_shell
  peers :: "PeerPicker option"

text \<open>The process-wide map \<^verbatim>\<open>groups\<close>. It holds pointers: a \<^verbatim>\<open>Get\<close> on a group changes
  the group the registry holds, and the model writes the changed group back.\<close>

type_synonym registry = "string \<rightharpoonup> Group"

datatype group_panic = NilGetter | RegisterPeersTwice

definition NewGroup :: "registry \<Rightarrow> string \<Rightarrow> int \<Rightarrow> Getter option \<Rightarrow> group_panic + Group \<times> registry" where
  "NewGroup groups nm cb gt =
     (case gt of
        None \<Rightarrow> Inl NilGetter
      | Some f \<Rightarrow>
          (let g = \<lparr> name = nm, getter = f, mainCache = \<lparr> cacheBytes = cb, lru = None \<rparr>,
                     peers = None \<rparr>
           in Inr (g, groups(nm \<mapsto> g))))"

definition GetGroup :: "registry \<Rightarrow> string \<Rightarrow> Group option" where
  "GetGroup groups nm = groups nm"

definition RegisterPeers :: "Group \<Rightarrow> PeerPicker \<Rightarrow> group_panic + Group" where
  "RegisterPeers g pk = (if peers g \<noteq> None then Inl RegisterPeersTwice else Inr (g \<lparr> peers := Some pk \<rparr>))"

text \<open>
  What \<^verbatim>\<open>Group.Get\<close> and its helpers return: the pair \<^verbatim>\<open>(ByteView, error)\<close>, the group
  as the call leaves it, and the calls made to the collaborators. The zero \<^verbatim>\<open>ByteView{}\<close>
  has no bytes. Admission runs the engine's eviction loop, so a call that never
  returns is \<open>None\<close>.
\<close>

type_synonym get_result = "(ByteView \<times> error option) \<times> Group \<times> call list"

definition populateCache :: "Group \<Rightarrow> string \<Rightarrow> ByteView \<Rightarrow> Group option" where
  "populateCache g k v = map_option (\<lambda>s. g \<lparr> mainCache := s \<rparr>) (cache_add (mainCache g) k v)"

definition getLocally :: "Group \<Rightarrow> string \<Rightarrow> get_result option" where
  "getLocally g k =
     (case getter g k of
        Inl err \<Rightarrow> Some ((\<lparr> b = [] \<rparr>, Some err), g, [CallGetter k])
      | Inr bytes \<Rightarrow>
          (let v = \<lparr> b = cloneBytes bytes \<rparr>
           in case populateCache g k v of
                None \<Rightarrow> None
              | Some g1 \<Rightarrow> Some ((v, None), g1, [CallGetter k])))"

definition getFromPeer :: "Group \<Rightarrow> PeerClient \<Rightarrow> string \<Rightarrow> (ByteView \<times> error option) \<times> call list" where
  "getFromPeer g peer k =
     (case peer (name g) k of
        Inl err \<Rightarrow> ((\<lparr> b = [] \<rparr>, Some err), [CallPeerGet (name g) k])
      | Inr bytes \<Rightarrow> ((\<lparr> b = bytes \<rparr>, None), [CallPeerGet (name g) k]))"

definition after_calls :: "call list \<Rightarrow> get_result option \<Rightarrow> get_result option" where
  "after_calls cs r = map_option (\<lambda>(res, g, tr). (res, g, cs @ tr)) r"

definition load :: "Group \<Rightarrow> string \<Rightarrow> get_result option" where
  "load g k =
     (case peers g of
        Some pk \<Rightarrow>
          (case pk k of
             Some peer \<Rightarrow>
               (case getFromPeer g peer k of
                  ((v, None), tr) \<Rightarrow> Some ((v, None), g, CallPickPeer k # tr)
                | ((v, Some err), tr) \<Rightarrow> after_calls (CallPickPeer k # tr) (getLocally g k))
           | None \<Rightarrow> after_calls [CallPickPeer k] (getLocally g k))
      | None \<Rightarrow> getLocally g k)"

definition Group_Get :: "Group \<Rightarrow> string \<Rightarrow> get_result option" where
  "Group_Get g k =
     (if k = [] then Some ((\<lparr> b = [] \<rparr>, Some (Err ''key is required'')), g, [])
      else (case cache_get (mainCache g) k of
              (Some v, s) \<Rightarrow> Some ((v, None), g \<lparr> mainCache := s \<rparr>, [])
            | (None, s) \<Rightarrow> load (g \<lparr> mainCache := s \<rparr>) k))"

text \<open>
  The peer server. \<^verbatim>\<open>ServeHTTP\<close> reads only \<^verbatim>\<open>basePath\<close> of the pool and the request
  path. A response is either a call \<^verbatim>\<open>http.Error(w, message, code)\<close> or the headers set
  and the body written with the default status 200. \<^verbatim>\<open>strings.SplitN(s, "/", 2)\<close> cuts
  at the first separator, and gives one piece when there is none.
\<close>

record HTTPPool =
  self :: string
  basePath :: string

definition defaultBasePath :: string where
  "defaultBasePath = ''/_geecache/''"

definition NewHTTPPool :: "string \<Rightarrow> HTTPPool" where
  "NewHTTPPool s = \<lparr> self = s, basePath = defaultBasePath \<rparr>"

definition HasPrefix :: "string \<Rightarrow> string \<Rightarrow> bool" where
  "HasPrefix s p = (take (length p) s = p)"

definition SplitN2 :: "string \<Rightarrow> char \<Rightarrow> string list" where
  "SplitN2 s sep =
     (case dropWhile (\<lambda>c. c \<noteq> sep) s of
        [] \<Rightarrow> [s]
      | _ # rest \<Rightarrow> [takeWhile (\<lambda>c. c \<noteq> sep) s, rest])"

datatype response =
    HttpError string nat
  | Written "(string \<times> string) list" "byte list"

datatype http_panic = UnexpectedPath string

definition ServeHTTP :: "HTTPPool \<Rightarrow> registry \<Rightarrow> string \<Rightarrow> (http_panic + response \<times> registry) option" where
  "ServeHTTP p groups path =
     (if \<not> HasPrefix path (basePath p)
      then Some (Inl (UnexpectedPath (''HTTPPool serving unexpected path: '' @ path)))
      else (let parts = SplitN2 (drop (length (basePath p)) path) CHR ''/''
            in if length parts \<noteq> 2 then Some (Inr (HttpError ''bad request'' 400, groups))
               else (let groupName = parts ! 0; k = parts ! 1
                     in case GetGroup groups groupName of
                          None \<Rightarrow> Some (Inr (HttpError (''no such group: '' @ groupName) 404, groups))
                        | Some grp \<Rightarrow>
                            (case Group_Get grp k of
                               None \<Rightarrow> None
                             | Some ((view, Some err), g1, tr) \<Rightarrow>
                                 Some (Inr (HttpError (Error err) 500, groups(groupName \<mapsto> g1)))
                             | Some ((view, None), g1, tr) \<Rightarrow>
                                 Some (Inr (Written [(''Content-Type'', ''application/octet-stream'')]
                                              (ByteSlice view),
                                            groups(groupName \<mapsto> g1)))))))"

text \<open>A shell whose engine, when it has one, is in a consistent state, and whose
  ceiling is not negative. \<^verbatim>\<open>NewGroup\<close> with \<open>cacheBytes \<ge> 0\<close> gives such a shell and \<^verbatim>\<open>add\<close>
  and \<^verbatim>\<open>get\<close> keep it.\<close>

definition shell_ok :: "cache_shell \<Rightarrow> bool" where
  "shell_ok s \<longleftrightarrow>
     0 \<le> cacheBytes s \<and>
     (case lru s of
        None \<Rightarrow> True
      | Some c \<Rightarrow> linked c \<and> counted c \<and> maxBytes c = cacheBytes s)"

text \<open>
  An example group \<^verbatim>\<open>scores\<close> with a ceiling of 2048 bytes, whose loader knows the key
  \<^verbatim>\<open>Tom\<close> only; a remote peer that answers every request with the byte \<^verbatim>\<open>V\<close> and one that
  always fails; the group \<open>negative_group\<close> that \<^verbatim>\<open>NewGroup\<close> makes for a byte budget of
  \<open>-1\<close>, with the failing peer registered; a registry holding the group without peers,
  and a pool with the default base path.
\<close>

definition example_getter :: Getter where
  "example_getter k = (if k = ''Tom'' then Inr [54, 51, 48] else Inl (Err (k @ '' not exist'')))"

definition remote_peer :: PeerClient where
  "remote_peer grp k = Inr [86]"

definition failing_peer :: PeerClient where
  "failing_peer grp k = Inl (Err ''connection refused'')"

definition example_group :: "PeerPicker option \<Rightarrow> Group" where
  "example_group pk =
     \<lparr> name = ''scores'', getter = example_getter,
       mainCache = \<lparr> cacheBytes = 2048, lru = None \<rparr>, peers = pk \<rparr>"

definition negative_group :: Group where
  "negative_group =
     \<lparr> name = ''scores'', getter = example_getter,
       mainCache = \<lparr> cacheBytes = - 1, lru = None \<rparr>,
       peers = Some (\<lambda>k. Some failing_peer) \<rparr>"

definition example_groups :: registry where
  "example_groups = [''scores'' \<mapsto> example_group None]"

definition example_pool :: HTTPPool where
  "example_pool = NewHTTPPool ''http://localhost:8001''"

section \<open>Properties of the LRU engine\<close>

lemma cloneBytes_eq: "cloneBytes bs = bs"
  by (simp add: cloneBytes_def copy_def make_bytes_def)


lemma weight_nonneg: "0 \<le> weight kv"
  by (simp add: weight_def Len_def)

lemma sum_weight_nonneg: "0 \<le> sum_list (map weight es)"
  by (induction es) (simp_all add: weight_nonneg)

lemma sum_list_remove1_int:
  fixes g :: "'a \<Rightarrow> int"
  shows "x \<in> set xs \<Longrightarrow> sum_list (map g (remove1 x xs)) = sum_list (map g xs) - g x"
  by (induction xs) auto

lemma sum_list_MoveToFront:
  fixes g :: "Element \<Rightarrow> int"
  shows "sum_list (map g (list_MoveToFront l e)) = sum_list (map g l)"
  by (simp add: list_MoveToFront_def sum_list_remove1_int)

lemma insert_remove1: "e \<in> set l \<Longrightarrow> insert e (set (remove1 e l)) = set l"
  by (induction l) auto

lemma set_MoveToFront: "set (list_MoveToFront l e) = set l"
  by (simp add: list_MoveToFront_def insert_remove1)

lemma distinct_MoveToFront: "distinct l \<Longrightarrow> distinct (list_MoveToFront l e)"
  by (auto simp: list_MoveToFront_def)

lemma linkedI:
  assumes "distinct (ll c)" "\<And>e. e \<in> set (ll c) \<Longrightarrow> e < nextElem c"
    and "\<And>k e. cache c k = Some e \<Longrightarrow> e \<in> set (ll c) \<and> entry_key (elems c e) = k"
    and "\<And>e. e \<in> set (ll c) \<Longrightarrow> cache c (entry_key (elems c e)) = Some e"
  shows "linked c"
  unfolding linked_def using assms by blast

lemma linked_distinct: "linked c \<Longrightarrow> distinct (ll c)"
  by (simp add: linked_def)

lemma linked_fresh: "linked c \<Longrightarrow> e \<in> set (ll c) \<Longrightarrow> e < nextElem c"
  by (simp add: linked_def)

lemma linked_cache: "linked c \<Longrightarrow> cache c k = Some e \<Longrightarrow> e \<in> set (ll c) \<and> entry_key (elems c e) = k"
  by (simp add: linked_def)

lemma linked_elem: "linked c \<Longrightarrow> e \<in> set (ll c) \<Longrightarrow> cache c (entry_key (elems c e)) = Some e"
  by (simp add: linked_def)

lemma linked_New: "linked (New mb cb)"
  by (simp add: linked_def New_def)

lemma counted_New: "counted (New mb cb)"
  by (simp add: counted_def New_def resident_def)

lemma Get_linked: "linked c \<Longrightarrow> linked (snd (Cache_Get c k))"
  by (auto simp: Cache_Get_def Let_def linked_def set_MoveToFront distinct_MoveToFront split: option.splits)

lemma Get_counted: "counted c \<Longrightarrow> counted (snd (Cache_Get c k))"
  by (auto simp: Cache_Get_def Let_def counted_def resident_def sum_list_MoveToFront comp_def split: option.splits)

lemma Get_bytes: "nowBytes (snd (Cache_Get c k)) = nowBytes c" "maxBytes (snd (Cache_Get c k)) = maxBytes c"
  by (auto simp: Cache_Get_def Let_def split: option.splits)

lemma RemoveOldest_empty: "ll c = [] \<Longrightarrow> RemoveOldest c = c"
  by (simp add: RemoveOldest_def list_Back_def)

lemma remove1_last: "distinct l \<Longrightarrow> l \<noteq> [] \<Longrightarrow> remove1 (last l) l = butlast l"
  by (induction l) auto

lemma RemoveOldest_ll: "distinct (ll c) \<Longrightarrow> ll (RemoveOldest c) = butlast (ll c)"
  by (cases "ll c = []") (simp_all add: RemoveOldest_def list_Back_def list_Remove_def Let_def remove1_last)

lemma RemoveOldest_fields:
  "maxBytes (RemoveOldest c) = maxBytes c"
  "elems (RemoveOldest c) = elems c"
  "nextElem (RemoveOldest c) = nextElem c"
  by (simp_all add: RemoveOldest_def Let_def split: option.splits)

lemma RemoveOldest_nowBytes:
  "ll c \<noteq> [] \<Longrightarrow> nowBytes (RemoveOldest c) = nowBytes c - weight (elems c (last (ll c)))"
  by (simp add: RemoveOldest_def list_Back_def Let_def weight_def)

lemma RemoveOldest_cache:
  "ll c \<noteq> [] \<Longrightarrow> cache (RemoveOldest c) = (cache c)(entry_key (elems c (last (ll c))) := None)"
  by (simp add: RemoveOldest_def list_Back_def Let_def)

lemma RemoveOldest_OnEvicted:
  "ll c \<noteq> [] \<Longrightarrow> OnEvicted (RemoveOldest c) =
     map_option (\<lambda>calls. calls @ [(entry_key (elems c (last (ll c))), entry_value (elems c (last (ll c))))])
       (OnEvicted c)"
  by (simp add: RemoveOldest_def list_Back_def Let_def)

lemma RemoveOldest_linked:
  assumes "linked c"
  shows "linked (RemoveOldest c)"
proof (cases "ll c = []")
  case True
  then show ?thesis using assms by (simp add: RemoveOldest_empty)
next
  case False
  let ?e = "last (ll c)"
  have d: "distinct (ll c)" using assms by (rule linked_distinct)
  have l: "ll (RemoveOldest c) = butlast (ll c)" using d by (rule RemoveOldest_ll)
  have split: "ll c = butlast (ll c) @ [?e]" using False by simp
  have "distinct (butlast (ll c) @ [?e])" using d split by simp
  then have notin: "?e \<notin> set (butlast (ll c))" by simp
  have mem: "set (ll c) = insert ?e (set (butlast (ll c)))"
    using arg_cong [OF split, of set] by simp
  show ?thesis
  proof (rule linkedI)
    show "distinct (ll (RemoveOldest c))" using d l by (simp add: distinct_butlast)
  next
    fix e assume "e \<in> set (ll (RemoveOldest c))"
    then have "e \<in> set (ll c)" using l by (auto dest: in_set_butlastD)
    then show "e < nextElem (RemoveOldest c)"
      using assms by (simp add: RemoveOldest_fields linked_fresh)
  next
    fix k e assume "cache (RemoveOldest c) k = Some e"
    then have k: "k \<noteq> entry_key (elems c ?e)" and ce: "cache c k = Some e"
      using False by (auto simp: RemoveOldest_cache split: if_splits)
    from linked_cache [OF assms ce] have e: "e \<in> set (ll c)" "entry_key (elems c e) = k" by auto
    with k have "e \<noteq> ?e" by auto
    with e mem have "e \<in> set (butlast (ll c))" by simp
    then show "e \<in> set (ll (RemoveOldest c)) \<and> entry_key (elems (RemoveOldest c) e) = k"
      using l e by (simp add: RemoveOldest_fields)
  next
    fix e assume "e \<in> set (ll (RemoveOldest c))"
    then have eb: "e \<in> set (butlast (ll c))" using l by simp
    then have e: "e \<in> set (ll c)" by (auto dest: in_set_butlastD)
    from eb notin have ne: "e \<noteq> ?e" by auto
    have le: "?e \<in> set (ll c)" using False by simp
    have "entry_key (elems c e) \<noteq> entry_key (elems c ?e)"
    proof
      assume eq: "entry_key (elems c e) = entry_key (elems c ?e)"
      from linked_elem [OF assms e] linked_elem [OF assms le] eq have "e = ?e"
        by (metis option.inject)
      with ne show False by simp
    qed
    then show "cache (RemoveOldest c) (entry_key (elems (RemoveOldest c) e)) = Some e"
      using False linked_elem [OF assms e] by (simp add: RemoveOldest_cache RemoveOldest_fields)
  qed
qed

lemma sum_list_butlast_int:
  fixes g :: "'a \<Rightarrow> int"
  shows "xs \<noteq> [] \<Longrightarrow> sum_list (map g (butlast xs)) = sum_list (map g xs) - g (last xs)"
  by (induction xs) auto

lemma RemoveOldest_counted:
  assumes "linked c" "counted c"
  shows "counted (RemoveOldest c)"
proof (cases "ll c = []")
  case True
  then show ?thesis using assms by (simp add: RemoveOldest_empty)
next
  case False
  have l: "ll (RemoveOldest c) = butlast (ll c)"
    using assms(1) by (simp add: RemoveOldest_ll linked_distinct)
  show ?thesis
    using assms(2) False
    by (simp add: counted_def resident_def l RemoveOldest_fields RemoveOldest_nowBytes
        sum_list_butlast_int comp_def)
qed
 

lemma Add_insert_maxBytes: "maxBytes (Add_insert c k v) = maxBytes c"
  by (simp add: Add_insert_def Let_def split: option.splits)

lemma Add_insert_OnEvicted: "OnEvicted (Add_insert c k v) = OnEvicted c"
  by (simp add: Add_insert_def Let_def split: option.splits)

lemma Add_insert_present:
  assumes "linked c" "cache c k = Some e"
  shows "ll (Add_insert c k v) = e # remove1 e (ll c)"
    and "elems (Add_insert c k v) = (elems c)(e := Entry k v)"
    and "cache (Add_insert c k v) = cache c"
    and "nextElem (Add_insert c k v) = nextElem c"
    and "nowBytes (Add_insert c k v) = nowBytes c + (Len v - Len (entry_value (elems c e)))"
  using linked_cache [OF assms]
  by (simp_all add: Add_insert_def Let_def assms(2) list_MoveToFront_def)

lemma Add_insert_absent:
  assumes "cache c k = None"
  shows "ll (Add_insert c k v) = nextElem c # ll c"
    and "elems (Add_insert c k v) = (elems c)(nextElem c := Entry k v)"
    and "cache (Add_insert c k v) = (cache c)(k \<mapsto> nextElem c)"
    and "nextElem (Add_insert c k v) = Suc (nextElem c)"
    and "nowBytes (Add_insert c k v) = nowBytes c + (int (length k) + Len v)"
  by (simp_all add: Add_insert_def Let_def assms list_PushFront_def)

lemma Add_insert_linked:
  assumes "linked c"
  shows "linked (Add_insert c k v)"
proof (cases "cache c k")
  case None
  have fresh: "nextElem c \<notin> set (ll c)"
    using linked_fresh [OF assms, of "nextElem c"] by auto
  have nokey: "\<And>e. e \<in> set (ll c) \<Longrightarrow> entry_key (elems c e) \<noteq> k"
    using linked_elem [OF assms] None by fastforce
  show ?thesis
  proof (rule linkedI)
    show "distinct (ll (Add_insert c k v))"
      using fresh linked_distinct [OF assms] by (simp add: Add_insert_absent [OF None])
  next
    fix e assume "e \<in> set (ll (Add_insert c k v))"
    then show "e < nextElem (Add_insert c k v)"
      using linked_fresh [OF assms, of e] by (auto simp: Add_insert_absent [OF None])
  next
    fix k' e assume "cache (Add_insert c k v) k' = Some e"
    then show "e \<in> set (ll (Add_insert c k v)) \<and> entry_key (elems (Add_insert c k v) e) = k'"
      using linked_cache [OF assms, of k' e] fresh
      by (auto simp: Add_insert_absent [OF None] split: if_splits)
  next
    fix e assume "e \<in> set (ll (Add_insert c k v))"
    then show "cache (Add_insert c k v) (entry_key (elems (Add_insert c k v) e)) = Some e"
      using linked_elem [OF assms, of e] fresh nokey [of e]
      by (auto simp: Add_insert_absent [OF None])
  qed
next
  case (Some e0)
  note p = Add_insert_present [OF assms Some]
  from linked_cache [OF assms Some] have e0: "e0 \<in> set (ll c)" "entry_key (elems c e0) = k" by auto
  have s: "set (e0 # remove1 e0 (ll c)) = set (ll c)" using e0(1) by (simp add: insert_remove1)
  show ?thesis
  proof (rule linkedI)
    show "distinct (ll (Add_insert c k v))"
      using linked_distinct [OF assms] by (simp add: p)
  next
    fix e assume "e \<in> set (ll (Add_insert c k v))"
    then have "e \<in> set (ll c)" using s by (simp only: p(1))
    then show "e < nextElem (Add_insert c k v)"
      using linked_fresh [OF assms, of e] by (simp add: p)
  next
    fix k' e assume "cache (Add_insert c k v) k' = Some e"
    then have "cache c k' = Some e" by (simp add: p)
    from linked_cache [OF assms this] e0
    show "e \<in> set (ll (Add_insert c k v)) \<and> entry_key (elems (Add_insert c k v) e) = k'"
      unfolding p(1) s by (auto simp: p)
  next
    fix e assume "e \<in> set (ll (Add_insert c k v))"
    then have "e \<in> set (ll c)" using s by (simp only: p(1))
    from linked_elem [OF assms this] e0 Some
    show "cache (Add_insert c k v) (entry_key (elems (Add_insert c k v) e)) = Some e"
      by (auto simp: p)
  qed
qed

lemma sum_list_map_upd_notin:
  fixes g :: "'b \<Rightarrow> int"
  shows "e \<notin> set xs \<Longrightarrow> sum_list (map (\<lambda>x. g ((f(e := y)) x)) xs) = sum_list (map (\<lambda>x. g (f x)) xs)"
  by (induction xs) auto

lemma Add_insert_counted:
  assumes "linked c" "counted c"
  shows "counted (Add_insert c k v)"
proof (cases "cache c k")
  case None
  have fresh: "nextElem c \<notin> set (ll c)"
    using linked_fresh [OF assms(1), of "nextElem c"] by auto
  show ?thesis
    using assms(2) sum_list_map_upd_notin [OF fresh, of weight "elems c" "Entry k v"]
    by (simp add: counted_def resident_def Add_insert_absent [OF None] comp_def weight_def)
next
  case (Some e0)
  note p = Add_insert_present [OF assms(1) Some]
  from linked_cache [OF assms(1) Some] have e0: "e0 \<in> set (ll c)" "entry_key (elems c e0) = k" by auto
  have notin: "e0 \<notin> set (remove1 e0 (ll c))"
    using linked_distinct [OF assms(1)] by simp
  have w: "weight (elems c e0) = int (length k) + Len (entry_value (elems c e0))"
    using e0(2) by (simp add: weight_def)
  show ?thesis
    using assms(2) sum_list_map_upd_notin [OF notin, of weight "elems c" "Entry k v"]
      sum_list_remove1_int [OF e0(1), of "\<lambda>x. weight (elems c x)"] w
    by (simp add: counted_def resident_def p comp_def weight_def)
qed


lemma Add_evict_stop: "maxBytes c = 0 \<or> nowBytes c \<le> maxBytes c \<Longrightarrow> Add_evict c = Some c"
  by (subst Add_evict.simps) auto

lemma Add_evict_step:
  "maxBytes c \<noteq> 0 \<Longrightarrow> maxBytes c < nowBytes c \<Longrightarrow> Add_evict c = Add_evict (RemoveOldest c)"
  by (subst Add_evict.simps) auto

lemma Add_evict_returns:
  assumes "linked c" "counted c" "0 \<le> maxBytes c"
  shows "\<exists>c'. Add_evict c = Some c' \<and> linked c' \<and> counted c' \<and> maxBytes c' = maxBytes c
           \<and> (maxBytes c' = 0 \<or> nowBytes c' \<le> maxBytes c')"
  using assms
proof (induction "length (ll c)" arbitrary: c rule: less_induct)
  case less
  show ?case
  proof (cases "maxBytes c \<noteq> 0 \<and> maxBytes c < nowBytes c")
    case False
    then have "Add_evict c = Some c" by (intro Add_evict_stop) auto
    with False less.prems show ?thesis by auto
  next
    case True
    have ne: "ll c \<noteq> []"
    proof
      assume "ll c = []"
      then have "nowBytes c = 0" using less.prems(2) by (simp add: counted_def resident_def)
      with True less.prems(3) show False by simp
    qed
    have l: "ll (RemoveOldest c) = butlast (ll c)"
      using less.prems(1) by (simp add: RemoveOldest_ll linked_distinct)
    have "length (ll (RemoveOldest c)) < length (ll c)" using ne l by simp
    from less.hyps [OF this RemoveOldest_linked [OF less.prems(1)]
        RemoveOldest_counted [OF less.prems(1,2)]] less.prems(3)
    obtain c' where c': "Add_evict (RemoveOldest c) = Some c'" "linked c'" "counted c'"
      "maxBytes c' = maxBytes c" "maxBytes c' = 0 \<or> nowBytes c' \<le> maxBytes c'"
      by (auto simp: RemoveOldest_fields)
    have "Add_evict c = Add_evict (RemoveOldest c)"
      using True by (intro Add_evict_step) auto
    with c' show ?thesis by auto
  qed
qed


lemma Add_evict_stuck:
  assumes a: "Add_evict c = Some c'"
  shows "\<not> (ll c = [] \<and> maxBytes c \<noteq> 0 \<and> maxBytes c < nowBytes c)"
proof (rule Add_evict.raw_induct
    [where P = "\<lambda>c c'. \<not> (ll c = [] \<and> maxBytes c \<noteq> 0 \<and> maxBytes c < nowBytes c)", OF _ a])
  fix f c ca
  assume ih: "\<And>c ca. f c = Some ca \<Longrightarrow>
                 \<not> (ll c = [] \<and> maxBytes c \<noteq> 0 \<and> maxBytes c < nowBytes c)"
    and eq: "(if maxBytes c \<noteq> 0 \<and> maxBytes c < nowBytes c
              then f (RemoveOldest c) else Some c) = Some ca"
  show "\<not> (ll c = [] \<and> maxBytes c \<noteq> 0 \<and> maxBytes c < nowBytes c)"
  proof
    assume s: "ll c = [] \<and> maxBytes c \<noteq> 0 \<and> maxBytes c < nowBytes c"
    then have "RemoveOldest c = c" by (simp add: RemoveOldest_empty)
    with s eq have "f c = Some ca" by simp
    from ih [OF this] s show False by simp
  qed
qed

lemma Add_evict_hangs:
  "ll c = [] \<Longrightarrow> maxBytes c \<noteq> 0 \<Longrightarrow> maxBytes c < nowBytes c \<Longrightarrow> Add_evict c = None"
  using Add_evict_stuck [of c] by (cases "Add_evict c") auto

lemma Add_evict_negative:
  assumes "linked c" "counted c" "maxBytes c < 0"
  shows "Add_evict c = None"
  using assms
proof (induction "length (ll c)" arbitrary: c rule: less_induct)
  case less
  have "0 \<le> nowBytes c" using less.prems(2) by (simp add: counted_def sum_weight_nonneg)
  with less.prems(3) have g: "maxBytes c \<noteq> 0" "maxBytes c < nowBytes c" by auto
  show ?case
  proof (cases "ll c = []")
    case True
    then show ?thesis using g by (simp add: Add_evict_hangs)
  next
    case False
    have "ll (RemoveOldest c) = butlast (ll c)"
      using less.prems(1) by (simp add: RemoveOldest_ll linked_distinct)
    with False have "length (ll (RemoveOldest c)) < length (ll c)" by simp
    from less.hyps [OF this RemoveOldest_linked [OF less.prems(1)]
        RemoveOldest_counted [OF less.prems(1,2)]] less.prems(3)
    have "Add_evict (RemoveOldest c) = None" by (simp add: RemoveOldest_fields)
    then show ?thesis using Add_evict_step [OF g] by simp
  qed
qed

lemma linked_empty_cache: "linked c \<Longrightarrow> ll c = [] \<Longrightarrow> cache c = Map.empty"
  by (rule ext) (auto simp: linked_def)

lemma resident_RemoveOldest:
  "linked c \<Longrightarrow> resident (RemoveOldest c) = butlast (resident c)"
  by (simp add: resident_def RemoveOldest_fields RemoveOldest_ll linked_distinct map_butlast)

lemma Add_evict_all:
  assumes "linked c" "counted c" "0 < maxBytes c"
    and "ll c \<noteq> []" "maxBytes c < weight (hd (resident c))"
  shows "\<exists>c'. Add_evict c = Some c' \<and> ll c' = [] \<and> cache c' = Map.empty \<and> nowBytes c' = 0
           \<and> maxBytes c' = maxBytes c
           \<and> OnEvicted c' = map_option (\<lambda>calls. calls @ rev (calls_of (resident c))) (OnEvicted c)"
  using assms
proof (induction "length (ll c)" arbitrary: c rule: less_induct)
  case less
  let ?r = "RemoveOldest c"
  have rne: "resident c \<noteq> []" using less.prems(4) by (simp add: resident_def)
  then have "resident c = hd (resident c) # tl (resident c)" by simp
  then have "sum_list (map weight (resident c)) =
      weight (hd (resident c)) + sum_list (map weight (tl (resident c)))"
    by (metis list.simps(9) sum_list.Cons)
  then have "weight (hd (resident c)) \<le> nowBytes c"
    using less.prems(2) sum_weight_nonneg [of "tl (resident c)"] by (simp add: counted_def)
  with less.prems(3,5) have g: "maxBytes c \<noteq> 0" "maxBytes c < nowBytes c" by auto
  have l: "ll ?r = butlast (ll c)"
    using less.prems(1) by (simp add: RemoveOldest_ll linked_distinct)
  have lr: "linked ?r" "counted ?r"
    using less.prems(1,2) by (simp_all add: RemoveOldest_linked RemoveOldest_counted)
  have res: "resident ?r = butlast (resident c)"
    using less.prems(1) by (rule resident_RemoveOldest)
  have ev: "OnEvicted ?r = map_option (\<lambda>calls. calls @ calls_of [last (resident c)]) (OnEvicted c)"
    using less.prems(4) by (simp add: RemoveOldest_OnEvicted calls_of_def resident_def last_map)
  have revc: "rev (calls_of (resident c)) = calls_of [last (resident c)] @ rev (calls_of (butlast (resident c)))"
    using rne by (metis append_butlast_last_id calls_of_def map_append rev_append rev_map rev.simps(1) rev_singleton_conv append_Nil list.simps(8,9))
  show ?case
  proof (cases "butlast (ll c) = []")
    case True
    then have "nowBytes ?r = 0" using lr(2) l by (simp add: counted_def resident_def)
    then have "Add_evict ?r = Some ?r"
      using less.prems(3) by (intro Add_evict_stop) (simp add: RemoveOldest_fields)
    moreover have "cache ?r = Map.empty" using lr(1) l True by (simp add: linked_empty_cache)
    moreover have "butlast (resident c) = []" using True by (simp add: resident_def map_butlast [symmetric])
    ultimately show ?thesis
      using Add_evict_step [OF g] l True \<open>nowBytes ?r = 0\<close> ev revc
      by (simp add: RemoveOldest_fields calls_of_def)
  next
    case False
    have len: "length (ll ?r) < length (ll c)" using less.prems(4) l by simp
    have hd: "hd (resident ?r) = hd (resident c)"
      using False res by (metis butlast.simps(2) list.sel(1) list.map_disc_iff map_butlast resident_def rne hd_Cons_tl)
    from less.hyps [OF len lr] less.prems(3,5) False l hd
    obtain c' where c': "Add_evict ?r = Some c'" "ll c' = []" "cache c' = Map.empty" "nowBytes c' = 0"
      "maxBytes c' = maxBytes c"
      "OnEvicted c' = map_option (\<lambda>calls. calls @ rev (calls_of (resident ?r))) (OnEvicted ?r)"
      by (auto simp: RemoveOldest_fields)
    have "OnEvicted c' = map_option (\<lambda>calls. calls @ rev (calls_of (resident c))) (OnEvicted c)"
      unfolding c'(6) ev res revc by (simp add: option.map_comp comp_def)
    with c' Add_evict_step [OF g] show ?thesis by simp
  qed
qed

lemma Cache_Add_negative:
  assumes "linked c" "counted c" "maxBytes c < 0"
  shows "Cache_Add c k v = None"
proof -
  have "Add_evict (Add_insert c k v) = None"
  proof (rule Add_evict_negative)
    show "linked (Add_insert c k v)" by (rule Add_insert_linked [OF assms(1)])
    show "counted (Add_insert c k v)" by (rule Add_insert_counted [OF assms(1,2)])
    show "maxBytes (Add_insert c k v) < 0" using assms(3) by (simp add: Add_insert_maxBytes)
  qed
  then show ?thesis by (simp add: Cache_Add_def)
qed

text \<open>
  Claim C8 says that \<^verbatim>\<open>Add\<close> terminates from every state whose byte total is the sum
  of the resident weights. The code does not: with a negative \<^verbatim>\<open>maxBytes\<close> the loop guard
  \<^verbatim>\<open>maxBytes != 0 && maxBytes < nowBytes\<close> still holds once the list is empty and the
  total is 0, and \<^verbatim>\<open>RemoveOldest\<close> then changes nothing. On a fresh engine created with
  \<^verbatim>\<open>New(-1, nil)\<close>, \<^verbatim>\<open>Add("a", v)\<close> with an empty value never returns.
\<close>

theorem Add_hangs_example: "Cache_Add (New (- 1) False) ''a'' \<lparr> b = [] \<rparr> = None"
proof -
  let ?c1 = "Add_insert (New (- 1) False) ''a'' \<lparr> b = [] \<rparr>"
  have g: "maxBytes ?c1 \<noteq> 0" "maxBytes ?c1 < nowBytes ?c1"
    by (simp_all add: Add_insert_def New_def Let_def Len_def list_PushFront_def)
  have r: "ll (RemoveOldest ?c1) = []" "maxBytes (RemoveOldest ?c1) \<noteq> 0"
     "maxBytes (RemoveOldest ?c1) < nowBytes (RemoveOldest ?c1)"
    by (simp_all add: RemoveOldest_def list_Back_def list_Remove_def Add_insert_def New_def Let_def Len_def list_PushFront_def)
  have "Add_evict ?c1 = Add_evict (RemoveOldest ?c1)" using g by (rule Add_evict_step)
  also have "\<dots> = None" using r by (rule Add_evict_hangs)
  finally show ?thesis by (simp add: Cache_Add_def)
qed


lemma Add_insert_front:
  assumes "linked c"
  shows "ll (Add_insert c k v) \<noteq> []" and "hd (resident (Add_insert c k v)) = Entry k v"
proof -
  show "ll (Add_insert c k v) \<noteq> []"
    by (cases "cache c k") (simp_all add: Add_insert_absent Add_insert_present [OF assms])
  show "hd (resident (Add_insert c k v)) = Entry k v"
    by (cases "cache c k") (simp_all add: resident_def Add_insert_absent Add_insert_present [OF assms])
qed

lemma Cache_Add_returns:
  assumes "linked c" "counted c" "0 \<le> maxBytes c"
  shows "\<exists>c'. Cache_Add c k v = Some c' \<and> linked c' \<and> counted c' \<and> maxBytes c' = maxBytes c
           \<and> (maxBytes c' = 0 \<or> nowBytes c' \<le> maxBytes c')"
  using Add_evict_returns [OF Add_insert_linked [OF assms(1)] Add_insert_counted [OF assms(1,2)], of k v]
    assms(3)
  by (simp add: Cache_Add_def Add_insert_maxBytes)

lemma Cache_Add_oversize:
  assumes "linked c" "counted c" "0 < maxBytes c" "maxBytes c < weight (Entry k v)"
  shows "\<exists>c'. Cache_Add c k v = Some c' \<and> resident c' = [] \<and> cache c' = Map.empty \<and> nowBytes c' = 0
           \<and> (\<exists>calls'. OnEvicted c' = map_option (\<lambda>calls. calls @ calls' @ [(k, v)]) (OnEvicted c))"
proof -
  let ?c1 = "Add_insert c k v"
  note f = Add_insert_front [OF assms(1), of k v]
  from Add_evict_all [OF Add_insert_linked [OF assms(1)] Add_insert_counted [OF assms(1,2)], of k v]
    assms(3,4) f
  obtain c' where c': "Add_evict ?c1 = Some c'" "ll c' = []" "cache c' = Map.empty" "nowBytes c' = 0"
    "OnEvicted c' = map_option (\<lambda>calls. calls @ rev (calls_of (resident ?c1))) (OnEvicted ?c1)"
    by (auto simp: Add_insert_maxBytes)
  have "resident ?c1 \<noteq> []" using f(1) by (simp add: resident_def)
  then have "resident ?c1 = Entry k v # tl (resident ?c1)" using f(2) by (metis list.collapse)
  then have "rev (calls_of (resident ?c1)) = rev (calls_of (tl (resident ?c1))) @ [(k, v)]"
    by (metis (no_types, lifting) calls_of_def entry.sel list.simps(9) rev.simps(2))
  with c' show ?thesis
    by (auto simp: Cache_Add_def resident_def Add_insert_OnEvicted)
qed

lemma run_ops_invariant:
  assumes "linked c0" "counted c0" "0 \<le> maxBytes c0" "maxBytes c0 = 0 \<or> nowBytes c0 \<le> maxBytes c0"
  shows "\<exists>c. run_ops c0 ops = Some c \<and> linked c \<and> counted c \<and> maxBytes c = maxBytes c0
           \<and> (maxBytes c = 0 \<or> nowBytes c \<le> maxBytes c)"
  using assms
proof (induction ops arbitrary: c0)
  case Nil
  then show ?case by simp
next
  case (Cons x ops)
  show ?case
  proof (cases x)
    case (OpAdd k v)
    from Cache_Add_returns [OF Cons.prems(1,2,3), of k v]
    obtain c1 where c1: "Cache_Add c0 k v = Some c1" "linked c1" "counted c1"
      "maxBytes c1 = maxBytes c0" "maxBytes c1 = 0 \<or> nowBytes c1 \<le> maxBytes c1" by auto
    from Cons.IH [OF c1(2,3) _ c1(5)] c1(4) Cons.prems(3)
    show ?thesis using OpAdd c1(1) by auto
  next
    case (OpGet k)
    let ?c1 = "snd (Cache_Get c0 k)"
    have "linked ?c1" "counted ?c1" "0 \<le> maxBytes ?c1" "maxBytes ?c1 = 0 \<or> nowBytes ?c1 \<le> maxBytes ?c1"
      using Cons.prems by (simp_all add: Get_linked Get_counted Get_bytes)
    from Cons.IH [OF this] show ?thesis using OpGet by (simp add: Get_bytes)
  qed
qed

text \<open>
  Claim C1, for a ceiling that is not negative: every sequence of \<^verbatim>\<open>Add\<close> and \<^verbatim>\<open>Get\<close>
  calls on an engine created by \<^verbatim>\<open>New\<close> returns, and in the state it returns
  \<^verbatim>\<open>nowBytes\<close> is the sum of \<^verbatim>\<open>len(key) + value.Len()\<close> over the resident entries and
  \<^verbatim>\<open>maxBytes == 0\<close> or \<^verbatim>\<open>nowBytes <= maxBytes\<close>. When \<^verbatim>\<open>maxBytes > 0\<close> and one entry
  weighs more than \<^verbatim>\<open>maxBytes\<close>, adding it leaves the engine empty with a total of 0, and
  the new entry is the last one evicted (the last call an installed callback receives).
\<close>

theorem lru_invariant:
  assumes "0 \<le> mb"
  shows "\<exists>c. run_ops (New mb cb) ops = Some c \<and> maxBytes c = mb \<and>
           nowBytes c = sum_list (map weight (resident c)) \<and>
           (maxBytes c = 0 \<or> nowBytes c \<le> maxBytes c) \<and>
           (\<forall>k v. 0 < maxBytes c \<and> maxBytes c < weight (Entry k v) \<longrightarrow>
              (\<exists>c'. Cache_Add c k v = Some c' \<and> resident c' = [] \<and> cache c' = Map.empty \<and>
                 nowBytes c' = 0 \<and>
                 (\<exists>calls'. OnEvicted c' =
                    map_option (\<lambda>calls. calls @ calls' @ [(k, v)]) (OnEvicted c))))"
proof -
  have "maxBytes (New mb cb) = mb" "nowBytes (New mb cb) = 0" by (simp_all add: New_def)
  with assms run_ops_invariant [OF linked_New counted_New, of mb cb ops]
  obtain c where c: "run_ops (New mb cb) ops = Some c" "linked c" "counted c" "maxBytes c = mb"
    "maxBytes c = 0 \<or> nowBytes c \<le> maxBytes c" by auto
  show ?thesis
    using c Cache_Add_oversize [OF c(2,3)] by (auto simp: counted_def)
qed

theorem lru_invariant_witness:
  "(0::int) \<le> 10 \<and>
   (\<exists>c. run_ops (New 10 False)
          [OpAdd ''a'' \<lparr> b = [1, 2, 3, 4] \<rparr>, OpAdd ''b'' \<lparr> b = [5, 6, 7, 8] \<rparr>,
           OpAdd ''c'' \<lparr> b = [9, 0, 1, 2] \<rparr>, OpGet ''a''] = Some c \<and>
        resident c = [Entry ''c'' \<lparr> b = [9, 0, 1, 2] \<rparr>, Entry ''b'' \<lparr> b = [5, 6, 7, 8] \<rparr>] \<and>
        nowBytes c = 10 \<and>
        nowBytes c = sum_list (map weight (resident c)) \<and>
        (\<exists>c'. Cache_Add c ''big'' \<lparr> b = [1, 2, 3, 4, 5, 6, 7, 8] \<rparr> = Some c' \<and> resident c' = []))"
proof -
  let ?ops = "[OpAdd ''a'' \<lparr> b = [1, 2, 3, 4] \<rparr>, OpAdd ''b'' \<lparr> b = [5, 6, 7, 8] \<rparr>,
           OpAdd ''c'' \<lparr> b = [9, 0, 1, 2] \<rparr>, OpGet ''a'']"
  have h: "(0::int) \<le> 10" by simp
  from lru_invariant [OF h, of False ?ops]
  obtain c where c: "run_ops (New 10 False) ?ops = Some c" "maxBytes c = 10"
    "nowBytes c = sum_list (map weight (resident c))"
    "\<forall>k v. 0 < maxBytes c \<and> maxBytes c < weight (Entry k v) \<longrightarrow>
       (\<exists>c'. Cache_Add c k v = Some c' \<and> resident c' = [] \<and> cache c' = Map.empty \<and>
          nowBytes c' = 0 \<and>
          (\<exists>calls'. OnEvicted c' = map_option (\<lambda>calls. calls @ calls' @ [(k, v)]) (OnEvicted c)))"
    by blast
  have r: "map_option resident (run_ops (New 10 False) ?ops)
        = Some [Entry ''c'' \<lparr> b = [9, 0, 1, 2] \<rparr>, Entry ''b'' \<lparr> b = [5, 6, 7, 8] \<rparr>]"
    by code_simp
  have n: "map_option nowBytes (run_ops (New 10 False) ?ops) = Some 10"
    by code_simp
  have w: "maxBytes c < weight (Entry ''big'' \<lparr> b = [1, 2, 3, 4, 5, 6, 7, 8] \<rparr>)"
    using c(2) by (simp add: weight_def Len_def)
  from c(4) w c(2) obtain c' where
    "Cache_Add c ''big'' \<lparr> b = [1, 2, 3, 4, 5, 6, 7, 8] \<rparr> = Some c'" "resident c' = []"
    by force
  with c r n show ?thesis by auto
qed

text \<open>
  Claim C1 as stated fails for a negative ceiling: on an engine created with
  \<^verbatim>\<open>New(-1, nil)\<close> a \<^verbatim>\<open>Get\<close> returns, and afterwards \<^verbatim>\<open>maxBytes\<close> is not 0 and
  \<^verbatim>\<open>nowBytes = 0\<close> exceeds it.
\<close>

theorem lru_invariant_counterexample:
  "run_ops (New (- 1) False) [OpGet ''a''] = Some (New (- 1) False) \<and>
   maxBytes (New (- 1) False) \<noteq> 0 \<and>
   \<not> nowBytes (New (- 1) False) \<le> maxBytes (New (- 1) False)"
  by (simp add: New_def Cache_Get_def)



lemma abs_RemoveOldest:
  assumes "linked c"
  shows "abs_of (RemoveOldest c) = spec_evict_tail (abs_of c)"
proof (cases "ll c = []")
  case True
  then show ?thesis by (simp add: RemoveOldest_empty spec_evict_tail_def abs_of_def resident_def)
next
  case False
  then show ?thesis
    using resident_RemoveOldest [OF assms]
    by (simp add: abs_of_def spec_evict_tail_def RemoveOldest_fields RemoveOldest_nowBytes
        resident_def last_map)
qed

lemma find_unique:
  "x \<in> set xs \<Longrightarrow> P x \<Longrightarrow> \<forall>y \<in> set xs. P y \<longrightarrow> y = x \<Longrightarrow> find P xs = Some x"
proof (induction xs)
  case Nil
  then show ?case by simp
next
  case (Cons a xs)
  show ?case
  proof (cases "P a")
    case True
    with Cons.prems(3) have "a = x" by simp
    with True show ?thesis by simp
  next
    case False
    with Cons.prems have "x \<in> set xs" by auto
    from Cons.IH [OF this Cons.prems(2)] Cons.prems(3) False show ?thesis by simp
  qed
qed

lemma filter_remove1:
  assumes "distinct xs" "\<And>y. y \<in> set xs \<Longrightarrow> P y \<longleftrightarrow> y \<noteq> e"
  shows "filter P xs = remove1 e xs"
proof -
  have "filter P xs = filter (\<lambda>y. e \<noteq> y) xs"
    by (rule filter_cong) (use assms(2) in auto)
  also have "\<dots> = removeAll e xs" by (simp add: removeAll_filter_not_eq)
  also have "\<dots> = remove1 e xs" using assms(1) by (simp add: distinct_remove1_removeAll)
  finally show ?thesis .
qed

lemma map_upd_notin: "e \<notin> set xs \<Longrightarrow> map (f(e := y)) xs = map f xs"
  by (induction xs) auto

lemma abs_Add_insert:
  assumes "linked c"
  shows "abs_of (Add_insert c k v) = spec_insert (abs_of c) k v"
proof (cases "cache c k")
  case None
  have fresh: "nextElem c \<notin> set (ll c)"
    using linked_fresh [OF assms, of "nextElem c"] by auto
  have "\<forall>e \<in> set (ll c). entry_key (elems c e) \<noteq> k"
  proof
    fix e assume "e \<in> set (ll c)"
    from linked_elem [OF assms this] None show "entry_key (elems c e) \<noteq> k" by auto
  qed
  then have "find (\<lambda>kv. entry_key kv = k) (resident c) = None"
    by (simp add: find_None_iff resident_def)
  then show ?thesis
    using fresh
    by (simp add: abs_of_def spec_insert_def resident_def Add_insert_absent [OF None]
        Add_insert_maxBytes map_upd_notin)
next
  case (Some e0)
  note p = Add_insert_present [OF assms Some]
  from linked_cache [OF assms Some] have e0: "e0 \<in> set (ll c)" "entry_key (elems c e0) = k" by auto
  have uniq: "\<forall>e \<in> set (ll c). entry_key (elems c e) = k \<longrightarrow> e = e0"
  proof (intro ballI impI)
    fix e assume "e \<in> set (ll c)" "entry_key (elems c e) = k"
    with linked_elem [OF assms, of e] have "cache c k = Some e" by blast
    with Some show "e = e0" by simp
  qed
  have "find (\<lambda>kv. entry_key kv = k) (map (elems c) (ll c)) = Some (elems c e0)"
  proof (rule find_unique)
    show "elems c e0 \<in> set (map (elems c) (ll c))" using e0(1) by simp
    show "entry_key (elems c e0) = k" by (rule e0(2))
    show "\<forall>y\<in>set (map (elems c) (ll c)). entry_key y = k \<longrightarrow> y = elems c e0"
      using uniq by simp
  qed
  then have f: "find (\<lambda>kv. entry_key kv = k) (resident c) = Some (elems c e0)"
    by (simp only: resident_def)
  have notin: "e0 \<notin> set (remove1 e0 (ll c))"
    using linked_distinct [OF assms] by simp
  have "filter (\<lambda>kv. entry_key kv \<noteq> k) (map (elems c) (ll c))
        = map (elems c) (filter (\<lambda>e. entry_key (elems c e) \<noteq> k) (ll c))"
    by (simp add: filter_map comp_def)
  also have "filter (\<lambda>e. entry_key (elems c e) \<noteq> k) (ll c) = remove1 e0 (ll c)"
  proof (rule filter_remove1 [OF linked_distinct [OF assms]])
    fix y assume "y \<in> set (ll c)"
    with uniq e0(2) show "(entry_key (elems c y) \<noteq> k) = (y \<noteq> e0)" by blast
  qed
  finally have flt: "filter (\<lambda>kv. entry_key kv \<noteq> k) (resident c) = map (elems c) (remove1 e0 (ll c))"
    by (simp only: resident_def)
  have "entries (abs_of (Add_insert c k v)) = Entry k v # map (elems c) (remove1 e0 (ll c))"
    using notin by (simp add: abs_of_def resident_def p map_upd_notin)
  moreover have "entries (spec_insert (abs_of c) k v) = Entry k v # map (elems c) (remove1 e0 (ll c))"
    using f flt by (simp add: spec_insert_def abs_of_def)
  moreover have "now_bytes (abs_of (Add_insert c k v)) = now_bytes (spec_insert (abs_of c) k v)"
    using f by (simp add: spec_insert_def abs_of_def p)
  moreover have "max_bytes (abs_of (Add_insert c k v)) = max_bytes (spec_insert (abs_of c) k v)"
    using f by (simp add: spec_insert_def abs_of_def Add_insert_maxBytes)
  ultimately show ?thesis by simp
qed

lemma spec_evict_while_stop:
  "\<not> (0 < max_bytes a \<and> max_bytes a < now_bytes a) \<Longrightarrow> spec_evict_while a = Some a"
  by (subst spec_evict_while.simps) auto

lemma spec_evict_while_step:
  "0 < max_bytes a \<Longrightarrow> max_bytes a < now_bytes a \<Longrightarrow>
     spec_evict_while a = spec_evict_while (spec_evict_tail a)"
  by (subst spec_evict_while.simps) auto

lemma evict_refines_1:
  assumes a: "Add_evict c = Some c'"
  shows "linked c \<longrightarrow> 0 \<le> maxBytes c \<longrightarrow> spec_evict_while (abs_of c) = Some (abs_of c')"
proof (rule Add_evict.raw_induct
    [where P = "\<lambda>c c'. linked c \<longrightarrow> 0 \<le> maxBytes c \<longrightarrow> spec_evict_while (abs_of c) = Some (abs_of c')",
      OF _ a])
  fix f c ca
  assume ih: "\<And>c ca. f c = Some ca \<Longrightarrow>
                 linked c \<longrightarrow> 0 \<le> maxBytes c \<longrightarrow> spec_evict_while (abs_of c) = Some (abs_of ca)"
    and eq: "(if maxBytes c \<noteq> 0 \<and> maxBytes c < nowBytes c
              then f (RemoveOldest c) else Some c) = Some ca"
  show "linked c \<longrightarrow> 0 \<le> maxBytes c \<longrightarrow> spec_evict_while (abs_of c) = Some (abs_of ca)"
  proof (intro impI)
    assume l: "linked c" and m: "0 \<le> maxBytes c"
    show "spec_evict_while (abs_of c) = Some (abs_of ca)"
    proof (cases "maxBytes c \<noteq> 0 \<and> maxBytes c < nowBytes c")
      case True
      with eq have "f (RemoveOldest c) = Some ca" by simp
      from ih [OF this] RemoveOldest_linked [OF l] m
      have "spec_evict_while (abs_of (RemoveOldest c)) = Some (abs_of ca)"
        by (simp add: RemoveOldest_fields)
      moreover have "spec_evict_while (abs_of c) = spec_evict_while (spec_evict_tail (abs_of c))"
        using True m by (intro spec_evict_while_step) (auto simp: abs_of_def)
      ultimately show ?thesis by (simp add: abs_RemoveOldest [OF l])
    next
      case False
      with eq have "ca = c" by simp
      moreover have "spec_evict_while (abs_of c) = Some (abs_of c)"
        using False by (intro spec_evict_while_stop) (auto simp: abs_of_def)
      ultimately show ?thesis by simp
    qed
  qed
qed

lemma evict_refines_2:
  assumes a: "spec_evict_while s = Some s'"
  shows "\<forall>c. linked c \<and> 0 \<le> maxBytes c \<and> abs_of c = s \<longrightarrow>
           (\<exists>c'. Add_evict c = Some c' \<and> abs_of c' = s')"
proof (rule spec_evict_while.raw_induct
    [where P = "\<lambda>s s'. \<forall>c. linked c \<and> 0 \<le> maxBytes c \<and> abs_of c = s \<longrightarrow>
           (\<exists>c'. Add_evict c = Some c' \<and> abs_of c' = s')", OF _ a])
  fix f s sa
  assume ih: "\<And>s sa. f s = Some sa \<Longrightarrow>
                 \<forall>c. linked c \<and> 0 \<le> maxBytes c \<and> abs_of c = s \<longrightarrow>
                   (\<exists>c'. Add_evict c = Some c' \<and> abs_of c' = sa)"
    and eq: "(if 0 < max_bytes s \<and> max_bytes s < now_bytes s
              then f (spec_evict_tail s) else Some s) = Some sa"
  show "\<forall>c. linked c \<and> 0 \<le> maxBytes c \<and> abs_of c = s \<longrightarrow>
          (\<exists>c'. Add_evict c = Some c' \<and> abs_of c' = sa)"
  proof (intro allI impI, elim conjE)
    fix c assume l: "linked c" and m: "0 \<le> maxBytes c" and s: "abs_of c = s"
    have mb: "max_bytes s = maxBytes c" "now_bytes s = nowBytes c"
      using s by (auto simp: abs_of_def)
    show "\<exists>c'. Add_evict c = Some c' \<and> abs_of c' = sa"
    proof (cases "0 < max_bytes s \<and> max_bytes s < now_bytes s")
      case True
      with eq have "f (spec_evict_tail s) = Some sa" by simp
      from ih [OF this, rule_format, of "RemoveOldest c"] RemoveOldest_linked [OF l] m s
      obtain c' where "Add_evict (RemoveOldest c) = Some c'" "abs_of c' = sa"
        by (auto simp: RemoveOldest_fields abs_RemoveOldest [OF l])
      moreover have "Add_evict c = Add_evict (RemoveOldest c)"
        using True mb by (intro Add_evict_step) auto
      ultimately show ?thesis by simp
    next
      case False
      with eq have "sa = s" by simp
      moreover have "Add_evict c = Some c"
        using False mb m by (intro Add_evict_stop) auto
      ultimately show ?thesis using s by simp
    qed
  qed
qed

lemma evict_refines:
  assumes "linked c" "0 \<le> maxBytes c"
  shows "map_option abs_of (Add_evict c) = spec_evict_while (abs_of c)"
proof (cases "Add_evict c")
  case (Some c')
  with evict_refines_1 [OF Some] assms show ?thesis by simp
next
  case None
  show ?thesis
  proof (cases "spec_evict_while (abs_of c)")
    case (Some s')
    from evict_refines_2 [OF Some] assms None show ?thesis by auto
  next
    case n: None
    with None show ?thesis by simp
  qed
qed

text \<open>
  Where the ceiling is not negative, the code does what the specification's words for
  \<^verbatim>\<open>Add\<close> say, on every state whose index and list agree. Seen as a recency sequence
  with a byte total, a present key has its value replaced and its entry moved to the
  front, and the total changes by the new value's length minus the old one's; an absent
  key gets a new front entry and the total grows by \<^verbatim>\<open>len(key) + value.Len()\<close>; then the
  tail is evicted while \<^verbatim>\<open>max_bytes > 0\<close> and \<^verbatim>\<open>now_bytes > max_bytes\<close>. The code returns
  exactly when this description does. The replacement is in place: for a present key no
  node is allocated, and the node the index points to is the one that is moved to the
  front and gets the new value.
\<close>

theorem Add_refines:
  assumes "linked c" "0 \<le> maxBytes c"
  shows "map_option abs_of (Cache_Add c k v) = spec_Add (abs_of c) k v \<and>
         Cache_Add c k v = Add_evict (Add_insert c k v) \<and>
         (\<forall>e. cache c k = Some e \<longrightarrow>
            ll (Add_insert c k v) = e # remove1 e (ll c) \<and>
            elems (Add_insert c k v) = (elems c)(e := Entry k v) \<and>
            nextElem (Add_insert c k v) = nextElem c)"
proof (intro conjI allI impI)
  show "map_option abs_of (Cache_Add c k v) = spec_Add (abs_of c) k v"
    using evict_refines [OF Add_insert_linked [OF assms(1)], of k v] assms(2)
    by (simp add: Cache_Add_def spec_Add_def abs_Add_insert [OF assms(1)] Add_insert_maxBytes)
  show "Cache_Add c k v = Add_evict (Add_insert c k v)" by (simp add: Cache_Add_def)
next
  fix e assume e: "cache c k = Some e"
  show "ll (Add_insert c k v) = e # remove1 e (ll c)"
    by (rule Add_insert_present(1) [OF assms(1) e])
  show "elems (Add_insert c k v) = (elems c)(e := Entry k v)"
    by (rule Add_insert_present(2) [OF assms(1) e])
  show "nextElem (Add_insert c k v) = nextElem c"
    by (rule Add_insert_present(4) [OF assms(1) e])
qed

text \<open>
  Claim C2 says that \<^verbatim>\<open>Add\<close> evicts the tail while \<^verbatim>\<open>max_bytes > 0\<close> and
  \<^verbatim>\<open>now_bytes > max_bytes\<close>. The code's guard is \<^verbatim>\<open>maxBytes != 0 && maxBytes < nowBytes\<close>,
  and the two part on a negative ceiling. On the engine \<^verbatim>\<open>New(-1, nil)\<close>,
  \<^verbatim>\<open>Add("a", v)\<close> with an empty value does not return in the code, while the claim's
  description evicts nothing and returns with the entry resident and a total of 1.
\<close>

theorem Add_negative_ceiling:
  "Cache_Add (New (- 1) False) ''a'' \<lparr> b = [] \<rparr> = None \<and>
   spec_Add (abs_of (New (- 1) False)) ''a'' \<lparr> b = [] \<rparr> =
     Some \<lparr> entries = [Entry ''a'' \<lparr> b = [] \<rparr>], now_bytes = 1, max_bytes = - 1 \<rparr>"
proof
  show "Cache_Add (New (- 1) False) ''a'' \<lparr> b = [] \<rparr> = None"
    by (rule Cache_Add_negative [OF linked_New counted_New]) (simp add: New_def)
  show "spec_Add (abs_of (New (- 1) False)) ''a'' \<lparr> b = [] \<rparr> =
     Some \<lparr> entries = [Entry ''a'' \<lparr> b = [] \<rparr>], now_bytes = 1, max_bytes = - 1 \<rparr>"
    by code_simp
qed

lemma linked_example_cache: "linked example_cache"
  by (auto simp: linked_def example_cache_def split: if_splits)

theorem Add_refines_witness:
  "linked example_cache \<and> 0 \<le> maxBytes example_cache \<and>
   map_option abs_of (Cache_Add example_cache ''a'' \<lparr> b = [7, 7, 7, 7, 7] \<rparr>)
     = spec_Add (abs_of example_cache) ''a'' \<lparr> b = [7, 7, 7, 7, 7] \<rparr> \<and>
   spec_Add (abs_of example_cache) ''a'' \<lparr> b = [7, 7, 7, 7, 7] \<rparr>
     = Some \<lparr> entries = [Entry ''a'' \<lparr> b = [7, 7, 7, 7, 7] \<rparr>], now_bytes = 6, max_bytes = 10 \<rparr>"
proof -
  have m: "0 \<le> maxBytes example_cache" by (simp add: example_cache_def)
  have "spec_Add (abs_of example_cache) ''a'' \<lparr> b = [7, 7, 7, 7, 7] \<rparr>
     = Some \<lparr> entries = [Entry ''a'' \<lparr> b = [7, 7, 7, 7, 7] \<rparr>], now_bytes = 6, max_bytes = 10 \<rparr>"
    by code_simp
  with Add_refines [OF linked_example_cache m, of "''a''" "\<lparr> b = [7, 7, 7, 7, 7] \<rparr>", THEN conjunct1]
    linked_example_cache m
  show ?thesis by simp
qed

lemma Add_evict_keeps_front:
  assumes "linked c" "counted c" "ll c \<noteq> []" "0 \<le> maxBytes c"
    and "maxBytes c = 0 \<or> weight (hd (resident c)) \<le> maxBytes c"
  shows "\<exists>c'. Add_evict c = Some c' \<and> linked c' \<and> counted c' \<and> ll c' \<noteq> [] \<and>
           hd (ll c') = hd (ll c) \<and> elems c' = elems c \<and> maxBytes c' = maxBytes c"
  using assms
proof (induction "length (ll c)" arbitrary: c rule: less_induct)
  case less
  show ?case
  proof (cases "maxBytes c \<noteq> 0 \<and> maxBytes c < nowBytes c")
    case False
    then have "Add_evict c = Some c" by (intro Add_evict_stop) auto
    with less.prems show ?thesis by simp
  next
    case True
    let ?r = "RemoveOldest c"
    have l: "ll ?r = butlast (ll c)"
      using less.prems(1) by (simp add: RemoveOldest_ll linked_distinct)
    have w: "weight (hd (resident c)) < nowBytes c" using True less.prems(5) by auto
    have ne: "butlast (ll c) \<noteq> []"
    proof
      assume "butlast (ll c) = []"
      with less.prems(3) have "ll c = [last (ll c)]" by (metis append_butlast_last_id append_Nil)
      then have "resident c = [elems c (last (ll c))]" by (metis list.simps(8,9) resident_def)
      then have "nowBytes c = weight (hd (resident c))"
        using less.prems(2) by (simp add: counted_def)
      with w show False by simp
    qed
    have hdl: "hd (ll ?r) = hd (ll c)"
      using ne l less.prems(3) by (metis butlast.simps(2) hd_Cons_tl list.sel(1))
    have hdr: "hd (resident ?r) = hd (resident c)"
      using ne l hdl less.prems(3) by (simp add: resident_def hd_map RemoveOldest_fields)
    have len: "length (ll ?r) < length (ll c)" using less.prems(3) l by simp
    from less.hyps [OF len RemoveOldest_linked [OF less.prems(1)]
        RemoveOldest_counted [OF less.prems(1,2)]] ne l hdr less.prems(4,5)
    obtain c' where "Add_evict ?r = Some c'" "linked c'" "counted c'" "ll c' \<noteq> []"
      "hd (ll c') = hd (ll ?r)" "elems c' = elems ?r" "maxBytes c' = maxBytes ?r"
      by (auto simp: RemoveOldest_fields)
    moreover have "Add_evict c = Add_evict ?r" using True by (intro Add_evict_step) auto
    ultimately show ?thesis using hdl by (simp add: RemoveOldest_fields)
  qed
qed

lemma MoveToFront_hd: "l \<noteq> [] \<Longrightarrow> list_MoveToFront l (hd l) = l"
  by (cases l) (simp_all add: list_MoveToFront_def)

lemma Cache_Add_then_Get:
  assumes "linked c" "counted c" "0 \<le> maxBytes c"
    and "maxBytes c = 0 \<or> weight (Entry k v) \<le> maxBytes c"
  shows "\<exists>c'. Cache_Add c k v = Some c' \<and> linked c' \<and> counted c' \<and> maxBytes c' = maxBytes c \<and>
           Cache_Get c' k = (Some v, c')"
proof -
  let ?c1 = "Add_insert c k v"
  note f = Add_insert_front [OF assms(1), of k v]
  from Add_evict_keeps_front [OF Add_insert_linked [OF assms(1)] Add_insert_counted [OF assms(1,2)] f(1)]
    assms(3,4) f(2)
  obtain c' where c': "Add_evict ?c1 = Some c'" "linked c'" "counted c'" "ll c' \<noteq> []"
    "hd (ll c') = hd (ll ?c1)" "elems c' = elems ?c1" "maxBytes c' = maxBytes c"
    by (auto simp: Add_insert_maxBytes)
  have e: "elems c' (hd (ll c')) = Entry k v"
    using f c'(5,6) by (simp add: resident_def hd_map)
  have "hd (ll c') \<in> set (ll c')" using c'(4) by simp
  from linked_elem [OF c'(2) this] e have "cache c' k = Some (hd (ll c'))" by simp
  then have "Cache_Get c' k = (Some v, c')"
    using e c'(4) by (simp add: Cache_Get_def Let_def MoveToFront_hd)
  with c' show ?thesis by (simp add: Cache_Add_def)
qed

section \<open>Properties of the consistent-hash ring\<close>

lemma Search_loop_correct:
  assumes "i \<le> j" "j \<le> n"
    and "\<forall>a<i. \<not> f a" "\<forall>b. j \<le> b \<and> b < n \<longrightarrow> f b"
    and "\<forall>a b. a \<le> b \<and> b < n \<and> f a \<longrightarrow> f b"
  shows "i \<le> Search_loop i j f \<and> Search_loop i j f \<le> j \<and>
         (\<forall>a<Search_loop i j f. \<not> f a) \<and> (\<forall>b. Search_loop i j f \<le> b \<and> b < n \<longrightarrow> f b)"
  using assms
proof (induction i j f rule: Search_loop.induct)
  case (1 i j f)
  show ?case
  proof (cases "i < j")
    case False
    with 1(3) have "i = j" by simp
    have "Search_loop i j f = i" using False by (subst Search_loop.simps) simp
    with \<open>i = j\<close> 1(5,6) show ?thesis by simp
  next
    case True
    let ?h = "(i + j) div 2"
    have h: "i \<le> ?h" "?h < j" using True by auto
    show ?thesis
    proof (cases "f ?h")
      case False
      have lo: "\<forall>a<?h + 1. \<not> f a"
      proof (intro allI impI)
        fix a assume "a < ?h + 1"
        then have "a \<le> ?h" by simp
        with 1(7) h(2) 1(4) False show "\<not> f a" by (meson less_le_trans)
      qed
      have "Search_loop i j f = Search_loop (?h + 1) j f"
        using True False by (subst Search_loop.simps) (simp add: Let_def)
      moreover from "1.IH"(1) [OF True refl False _ 1(4) lo 1(6,7)] h
      have "?h + 1 \<le> Search_loop (?h + 1) j f \<and> Search_loop (?h + 1) j f \<le> j \<and>
         (\<forall>a<Search_loop (?h + 1) j f. \<not> f a) \<and> (\<forall>b. Search_loop (?h + 1) j f \<le> b \<and> b < n \<longrightarrow> f b)"
        by simp
      ultimately show ?thesis using h by auto
    next
      case fh: True
      have hi: "\<forall>b. ?h \<le> b \<and> b < n \<longrightarrow> f b"
        using 1(7) fh by blast
      have "Search_loop i j f = Search_loop i ?h f"
        using True fh by (subst Search_loop.simps) (simp add: Let_def)
      moreover from "1.IH"(2) [OF True refl _ h(1) _ 1(5) hi 1(7)] fh h 1(4)
      have "i \<le> Search_loop i ?h f \<and> Search_loop i ?h f \<le> ?h \<and>
         (\<forall>a<Search_loop i ?h f. \<not> f a) \<and> (\<forall>b. Search_loop i ?h f \<le> b \<and> b < n \<longrightarrow> f b)"
        by simp
      ultimately show ?thesis using h by auto
    qed
  qed
qed


lemma Search_sorted:
  assumes "sorted a"
  shows "Search (length a) (\<lambda>i. x \<le> a ! i) \<le> length a"
    and "\<forall>j < Search (length a) (\<lambda>i. x \<le> a ! i). a ! j < x"
    and "Search (length a) (\<lambda>i. x \<le> a ! i) < length a \<Longrightarrow>
           x \<le> a ! Search (length a) (\<lambda>i. x \<le> a ! i)"
proof -
  define f where "f = (\<lambda>i. x \<le> a ! i)"
  define r where "r = Search_loop 0 (length a) f"
  have mono: "\<forall>i j. i \<le> j \<and> j < length a \<and> f i \<longrightarrow> f j"
  proof (intro allI impI, elim conjE)
    fix i j assume "i \<le> j" "j < length a" "f i"
    from sorted_nth_mono [OF assms this(1,2)] this(3) show "f j" by (simp add: f_def)
  qed
  have "0 \<le> Search_loop 0 (length a) f \<and> Search_loop 0 (length a) f \<le> length a \<and>
        (\<forall>i<Search_loop 0 (length a) f. \<not> f i) \<and>
        (\<forall>j. Search_loop 0 (length a) f \<le> j \<and> j < length a \<longrightarrow> f j)"
  proof (rule Search_loop_correct)
    show "0 \<le> length a" by simp
    show "length a \<le> length a" by simp
    show "\<forall>i<0. \<not> f i" by simp
    show "\<forall>j. length a \<le> j \<and> j < length a \<longrightarrow> f j" using leD by blast
    show "\<forall>i j. i \<le> j \<and> j < length a \<and> f i \<longrightarrow> f j" by (rule mono)
  qed
  then have r: "r \<le> length a" "\<forall>i<r. \<not> f i" "\<forall>j. r \<le> j \<and> j < length a \<longrightarrow> f j"
    unfolding r_def by blast+
  have S: "Search (length a) (\<lambda>i. x \<le> a ! i) = r" by (simp add: Search_def r_def f_def)
  show "Search (length a) (\<lambda>i. x \<le> a ! i) \<le> length a" unfolding S by (rule r(1))
  show "\<forall>j < Search (length a) (\<lambda>i. x \<le> a ! i). a ! j < x"
    unfolding S using r(2) by (simp add: f_def not_le)
  show "Search (length a) (\<lambda>i. x \<le> a ! i) < length a \<Longrightarrow>
           x \<le> a ! Search (length a) (\<lambda>i. x \<le> a ! i)"
    unfolding S using r(3) by (simp add: f_def)
qed

text \<open>
  Claim C5: on a ring (its hashes in ascending order), \<^verbatim>\<open>Get(key)\<close> returns the empty
  string when the ring is empty. Otherwise, with \<open>h\<close> the hash of the key, there is an
  index \<open>i\<close> that is the smallest with \<open>ring[i] \<ge> h\<close>, or the length of the ring when no
  element is \<open>\<ge> h\<close>, and \<^verbatim>\<open>Get\<close> returns the owner recorded for
  \<open>ring[i mod len(ring)]\<close>.
\<close>

theorem Map_Get_routes:
  assumes "sorted (keys m)"
  shows "(keys m = [] \<longrightarrow> Map_Get m key = []) \<and>
         (keys m \<noteq> [] \<longrightarrow>
            (\<exists>i \<le> length (keys m).
               (\<forall>j < i. keys m ! j < uint (hash m key)) \<and>
               (i < length (keys m) \<longrightarrow> uint (hash m key) \<le> keys m ! i) \<and>
               Map_Get m key = hashMap_at m (keys m ! (i mod length (keys m)))))"
proof (intro conjI impI)
  assume "keys m = []"
  then show "Map_Get m key = []" by (simp add: Map_Get_def)
next
  assume ne: "keys m \<noteq> []"
  let ?i = "Search (length (keys m)) (\<lambda>i. uint (hash m key) \<le> keys m ! i)"
  have "Map_Get m key = hashMap_at m (keys m ! (?i mod length (keys m)))"
    using ne by (simp add: Map_Get_def Let_def)
  with Search_sorted [OF assms, of "uint (hash m key)"]
  show "\<exists>i \<le> length (keys m).
               (\<forall>j < i. keys m ! j < uint (hash m key)) \<and>
               (i < length (keys m) \<longrightarrow> uint (hash m key) \<le> keys m ! i) \<and>
               Map_Get m key = hashMap_at m (keys m ! (i mod length (keys m)))"
    by blast
qed

lemma SearchInts_member:
  assumes "sorted a" "x \<in> set a"
  shows "SearchInts a x < length a" and "a ! SearchInts a x = x"
proof -
  let ?r = "Search (length a) (\<lambda>i. x \<le> a ! i)"
  note s = Search_sorted [OF assms(1), of x]
  from assms(2) obtain p where p: "p < length a" "a ! p = x" by (auto simp: in_set_conv_nth)
  have "\<not> p < ?r" using s(2) p by auto
  then have le: "?r \<le> p" by simp
  with p(1) have lt: "?r < length a" by simp
  from sorted_nth_mono [OF assms(1) le p(1)] p(2) s(3) [OF lt] have "a ! ?r = x" by simp
  with lt show "SearchInts a x < length a" "a ! SearchInts a x = x"
    by (simp_all add: SearchInts_def)
qed

lemma sorted_remove_nth:
  assumes "sorted (a :: int list)" "i < length a"
  shows "sorted (take i a @ drop (Suc i) a)"
    and "mset (take i a @ drop (Suc i) a) = mset a - {#a ! i#}"
proof -
  have d: "take i a @ a ! i # drop (Suc i) a = a"
    using assms(2) by (simp add: id_take_nth_drop [symmetric])
  have "sorted (take i a @ a ! i # drop (Suc i) a)" using assms(1) by (simp only: d)
  then show "sorted (take i a @ drop (Suc i) a)" by (auto simp: sorted_append)
  have "mset (take i a @ a ! i # drop (Suc i) a) = mset a" by (simp only: d)
  then have "mset (take i a) + mset (drop (Suc i) a) + {#a ! i#} = mset a" by simp
  then have "mset (take i a) + mset (drop (Suc i) a) = mset a - {#a ! i#}"
    by (metis add_diff_cancel_right')
  then show "mset (take i a @ drop (Suc i) a) = mset a - {#a ! i#}" by simp
qed


lemma Add_replica_fields:
  "hash (Add_replica key i m) = hash m" "replicas (Add_replica key i m) = replicas m"
  by (simp_all add: Add_replica_def Let_def)

lemma fold_Add_replica:
  "fold (Add_replica key) ns m =
     m \<lparr> keys := keys m @ map (\<lambda>i. uint (hash m (Itoa (int i) @ key))) ns,
         hashMap := (\<lambda>x. if x \<in> set (map (\<lambda>i. uint (hash m (Itoa (int i) @ key))) ns)
                          then Some key else hashMap m x) \<rparr>"
proof (induction ns arbitrary: m)
  case Nil
  show ?case by simp
next
  case (Cons n ns)
  show ?case
    by (simp add: Cons.IH Add_replica_fields) (auto simp: Add_replica_def Let_def fun_eq_iff)
qed

lemma Map_Add_single:
  "Map_Add m [p] =
     m \<lparr> keys := sort (keys m @ vnodes m p),
         hashMap := (\<lambda>x. if x \<in> set (vnodes m p) then Some p else hashMap m x) \<rparr>"
  by (simp add: Map_Add_def Let_def fold_Add_replica vnodes_def)

lemma Remove_loop_present:
  assumes "sorted (keys m)"
    and "mset (map (\<lambda>i. uint (hash m (Itoa (int i) @ p))) ns) \<subseteq># mset (keys m)"
  shows "\<exists>m'. Remove_loop m p ns = Inr m' \<and> sorted (keys m') \<and>
           mset (keys m') = mset (keys m) - mset (map (\<lambda>i. uint (hash m (Itoa (int i) @ p))) ns) \<and>
           hashMap m' = (\<lambda>x. if x \<in> set (map (\<lambda>i. uint (hash m (Itoa (int i) @ p))) ns)
                                then None else hashMap m x) \<and>
           hash m' = hash m \<and> replicas m' = replicas m"
  using assms
proof (induction ns arbitrary: m)
  case Nil
  then show ?case by simp
next
  case (Cons n ns)
  let ?hf = "\<lambda>i. uint (hash m (Itoa (int i) @ p))"
  let ?h = "?hf n"
  let ?idx = "SearchInts (keys m) ?h"
  let ?m1 = "m \<lparr> keys := take ?idx (keys m) @ drop (?idx + 1) (keys m),
                  hashMap := (hashMap m)(?h := None) \<rparr>"
  have sub: "add_mset ?h (mset (map ?hf ns)) \<subseteq># mset (keys m)" using Cons.prems(2) by simp
  then have "?h \<in># mset (keys m)" by (meson insert_subset_eq_iff)
  then have mem: "?h \<in> set (keys m)" by simp
  note idx = SearchInts_member [OF Cons.prems(1) mem]
  note rm = sorted_remove_nth [OF Cons.prems(1) idx(1)]
  have s1: "sorted (keys ?m1)" using rm(1) by simp
  have m1: "mset (keys ?m1) = mset (keys m) - {#?h#}" using rm(2) idx(2) by simp
  have sub1: "mset (map (\<lambda>i. uint (hash ?m1 (Itoa (int i) @ p))) ns) \<subseteq># mset (keys ?m1)"
    using sub m1 by (simp add: insert_subset_eq_iff)
  from Cons.IH [OF s1 sub1]
  obtain m' where m': "Remove_loop ?m1 p ns = Inr m'" "sorted (keys m')"
    "mset (keys m') = mset (keys ?m1) - mset (map ?hf ns)"
    "hashMap m' = (\<lambda>x. if x \<in> set (map ?hf ns) then None else hashMap ?m1 x)"
    "hash m' = hash m" "replicas m' = replicas m"
    by auto
  have step: "Remove_loop m p (n # ns) = Remove_loop ?m1 p ns"
    using idx(1) by (simp add: Let_def)
  have "mset (keys m') = mset (keys m) - mset (map ?hf (n # ns))"
    using m'(3) m1 by simp
  moreover have "hashMap m' = (\<lambda>x. if x \<in> set (map ?hf (n # ns)) then None else hashMap m x)"
    using m'(4) by (auto simp: fun_eq_iff)
  ultimately show ?case using step m' by simp
qed

text \<open>
  Claim C6: when none of the virtual-node hashes of \<open>p\<close> is bound in \<^verbatim>\<open>hashMap\<close> already,
  \<^verbatim>\<open>Add(p)\<close> followed by \<^verbatim>\<open>Remove(p)\<close> returns without a panic, the ring is the sorted
  original (so the same set of hashes), and \<^verbatim>\<open>hashMap\<close> is the original.
\<close>

theorem Add_Remove_restores:
  assumes "set (vnodes m p) \<inter> dom (hashMap m) = {}"
  shows "\<exists>m'. Map_Remove (Map_Add m [p]) p = Inr m' \<and>
           keys m' = sort (keys m) \<and> set (keys m') = set (keys m) \<and>
           hashMap m' = hashMap m \<and> hash m' = hash m \<and> replicas m' = replicas m"
proof -
  let ?m2 = "Map_Add m [p]"
  have f: "hash ?m2 = hash m" "replicas ?m2 = replicas m" "keys ?m2 = sort (keys m @ vnodes m p)"
    "hashMap ?m2 = (\<lambda>x. if x \<in> set (vnodes m p) then Some p else hashMap m x)"
    by (simp_all add: Map_Add_single)
  have v: "map (\<lambda>i. uint (hash ?m2 (Itoa (int i) @ p))) [0..<nat (replicas ?m2)] = vnodes m p"
    by (simp add: f vnodes_def)
  have "sorted (keys ?m2)" by (simp add: f)
  moreover have "mset (map (\<lambda>i. uint (hash ?m2 (Itoa (int i) @ p))) [0..<nat (replicas ?m2)])
                   \<subseteq># mset (keys ?m2)"
    unfolding v by (simp add: f)
  ultimately obtain m' where m': "Remove_loop ?m2 p [0..<nat (replicas ?m2)] = Inr m'"
    "sorted (keys m')" "mset (keys m') = mset (keys ?m2) - mset (vnodes m p)"
    "hashMap m' = (\<lambda>x. if x \<in> set (vnodes m p) then None else hashMap ?m2 x)"
    "hash m' = hash ?m2" "replicas m' = replicas ?m2"
    using Remove_loop_present [of ?m2 p "[0..<nat (replicas ?m2)]"] unfolding v by blast
  have "mset (keys m') = mset (keys m)" using m'(3) by (simp add: f)
  with m'(2) have k: "keys m' = sort (keys m)" by (simp add: properties_for_sort)
  have "hashMap m' = hashMap m"
  proof
    fix x
    show "hashMap m' x = hashMap m x"
    proof (cases "x \<in> set (vnodes m p)")
      case True
      with assms have "hashMap m x = None" by (auto simp: dom_def)
      with True show ?thesis by (simp add: m'(4))
    next
      case False
      then show ?thesis by (simp add: m'(4) f)
    qed
  qed
  with m' k f show ?thesis by (simp add: Map_Remove_def)
qed


lemma vnodes_example: "vnodes example_ring ''P'' = [128, 129, 130]"
  by code_simp

theorem Map_Get_routes_witness:
  "sorted (keys example_ring) \<and> keys example_ring \<noteq> [] \<and>
   uint (hash example_ring ''zz'') = 244 \<and>
   (\<exists>i \<le> length (keys example_ring).
      (\<forall>j < i. keys example_ring ! j < uint (hash example_ring ''zz'')) \<and>
      Map_Get example_ring ''zz'' = hashMap_at example_ring (keys example_ring ! (i mod length (keys example_ring)))) \<and>
   Map_Get example_ring ''zz'' = ''A'' \<and> Map_Get example_ring ''P'' = ''A''"
proof -
  have s: "sorted (keys example_ring)" by (simp add: example_ring_def)
  have ne: "keys example_ring \<noteq> []" by (simp add: example_ring_def)
  have h: "uint (hash example_ring ''zz'') = 244" by code_simp
  have g: "Map_Get example_ring ''zz'' = ''A''" "Map_Get example_ring ''P'' = ''A''" by code_simp+
  from Map_Get_routes [OF s, of "''zz''"] ne s h g show ?thesis by blast
qed

theorem Add_Remove_restores_witness:
  "set (vnodes example_ring ''P'') \<inter> dom (hashMap example_ring) = {} \<and>
   (\<exists>m'. Map_Remove (Map_Add example_ring [''P'']) ''P'' = Inr m' \<and>
      keys m' = [113, 114, 115] \<and> hashMap m' = hashMap example_ring)"
proof -
  have d: "set (vnodes example_ring ''P'') \<inter> dom (hashMap example_ring) = {}"
    by (simp add: vnodes_example) (simp add: example_ring_def)
  have k: "sort (keys example_ring) = [113, 114, 115]" by (simp add: example_ring_def)
  from Add_Remove_restores [OF d] d k show ?thesis by auto
qed

section \<open>Properties of groups and of the HTTP server\<close>

lemma cache_get_miss: "fst (cache_get s k) = None \<Longrightarrow> snd (cache_get s k) = s"
  by (auto simp: cache_get_def Cache_Get_def Let_def split: option.splits prod.splits)

lemma shell_engine:
  assumes "shell_ok s"
  shows "linked (case lru s of None \<Rightarrow> New (cacheBytes s) False | Some c \<Rightarrow> c)"
    and "counted (case lru s of None \<Rightarrow> New (cacheBytes s) False | Some c \<Rightarrow> c)"
    and "maxBytes (case lru s of None \<Rightarrow> New (cacheBytes s) False | Some c \<Rightarrow> c) = cacheBytes s"
    and "0 \<le> cacheBytes s"
proof -
  show "linked (case lru s of None \<Rightarrow> New (cacheBytes s) False | Some c \<Rightarrow> c)"
    using assms by (cases "lru s") (simp_all add: shell_ok_def linked_New)
  show "counted (case lru s of None \<Rightarrow> New (cacheBytes s) False | Some c \<Rightarrow> c)"
    using assms by (cases "lru s") (simp_all add: shell_ok_def counted_New)
  show "maxBytes (case lru s of None \<Rightarrow> New (cacheBytes s) False | Some c \<Rightarrow> c) = cacheBytes s"
    using assms by (cases "lru s") (simp_all add: shell_ok_def New_def)
  show "0 \<le> cacheBytes s" using assms by (simp add: shell_ok_def)
qed

lemma cache_add_returns:
  assumes "shell_ok s"
  shows "\<exists>s1. cache_add s k v = Some s1 \<and> shell_ok s1 \<and> cacheBytes s1 = cacheBytes s"
proof -
  define c where "c = (case lru s of None \<Rightarrow> New (cacheBytes s) False | Some c \<Rightarrow> c)"
  note e = shell_engine [OF assms, folded c_def]
  have "0 \<le> maxBytes c" using e(3,4) by simp
  from Cache_Add_returns [OF e(1,2) this, of k v] e(3,4)
  show ?thesis by (auto simp: cache_add_def shell_ok_def c_def [symmetric])
qed

lemma cache_get_ok: "shell_ok s \<Longrightarrow> shell_ok (snd (cache_get s k))"
  using Get_linked [of _ k] Get_counted [of _ k] Get_bytes(2) [of _ k]
  by (auto simp: shell_ok_def cache_get_def split: option.splits prod.splits)
    (metis snd_conv)+

lemma cache_add_then_get:
  assumes "shell_ok s"
    and "cacheBytes s = 0 \<or> weight (Entry k v) \<le> cacheBytes s"
  shows "\<exists>s1. cache_add s k v = Some s1 \<and> shell_ok s1 \<and> cache_get s1 k = (Some v, s1)"
proof -
  define c where "c = (case lru s of None \<Rightarrow> New (cacheBytes s) False | Some c \<Rightarrow> c)"
  note e = shell_engine [OF assms(1), folded c_def]
  have c: "linked c" "counted c" "maxBytes c = cacheBytes s" "0 \<le> maxBytes c"
    using e by simp_all
  from Cache_Add_then_Get [OF c(1,2,4), of k v] assms(2) c(3)
  obtain c' where c': "Cache_Add c k v = Some c'" "linked c'" "counted c'" "maxBytes c' = maxBytes c"
    "Cache_Get c' k = (Some v, c')" by auto
  have "cache_add s k v = Some (s \<lparr> lru := Some c' \<rparr>)"
    using c'(1) by (simp add: cache_add_def c_def [symmetric])
  moreover have "shell_ok (s \<lparr> lru := Some c' \<rparr>)"
    using c' c assms(1) by (simp add: shell_ok_def)
  moreover have "cache_get (s \<lparr> lru := Some c' \<rparr>) k = (Some v, s \<lparr> lru := Some c' \<rparr>)"
    using c'(5) by (simp add: cache_get_def)
  ultimately show ?thesis by blast
qed

lemma Group_Get_miss:
  assumes "k \<noteq> []" "fst (cache_get (mainCache g) k) = None"
  shows "Group_Get g k = load g k"
proof -
  from cache_get_miss [OF assms(2)] assms(2)
  have "cache_get (mainCache g) k = (None, mainCache g)" by (metis prod.collapse)
  with assms(1) show ?thesis by (simp add: Group_Get_def)
qed

lemma miss_example: "fst (cache_get (mainCache (example_group pk)) k) = None"
  by (simp add: example_group_def cache_get_def)

lemma shell_ok_example: "shell_ok (mainCache (example_group pk))"
  by (simp add: example_group_def shell_ok_def)

text \<open>
  Claim C3: when a group has a peer picker, the key is not empty and misses the local
  cache, the picker selects a remote peer and that peer's fetch succeeds, then
  \<^verbatim>\<open>Group.Get\<close> returns a view of exactly the peer's bytes, after consulting the picker and
  the peer and nobody else, and leaves the group as it was: nothing is admitted. So the
  same \<^verbatim>\<open>Get\<close> on the state it returns misses the local cache again and goes through the
  picker and the peer again.
\<close>

theorem remote_hit_not_cached:
  assumes "k \<noteq> []" "fst (cache_get (mainCache g) k) = None"
    and "peers g = Some pk" "pk k = Some peer" "peer (name g) k = Inr bytes"
  shows "Group_Get g k = Some ((\<lparr> b = bytes \<rparr>, None), g, [CallPickPeer k, CallPeerGet (name g) k]) \<and>
         (\<forall>res g1 tr. Group_Get g k = Some (res, g1, tr) \<longrightarrow>
            mainCache g1 = mainCache g \<and> fst (cache_get (mainCache g1) k) = None \<and>
            Group_Get g1 k = Some (res, g1, [CallPickPeer k, CallPeerGet (name g) k]))"
proof -
  have "Group_Get g k = Some ((\<lparr> b = bytes \<rparr>, None), g, [CallPickPeer k, CallPeerGet (name g) k])"
    using assms(3-5) by (simp add: Group_Get_miss [OF assms(1,2)] load_def getFromPeer_def)
  with assms(2) show ?thesis by simp
qed

theorem remote_hit_not_cached_witness:
  "''Tom'' \<noteq> [] \<and>
   fst (cache_get (mainCache (example_group (Some (\<lambda>k. Some remote_peer)))) ''Tom'') = None \<and>
   remote_peer ''scores'' ''Tom'' = Inr [86] \<and>
   Group_Get (example_group (Some (\<lambda>k. Some remote_peer))) ''Tom'' =
     Some ((\<lparr> b = [86] \<rparr>, None), example_group (Some (\<lambda>k. Some remote_peer)),
           [CallPickPeer ''Tom'', CallPeerGet ''scores'' ''Tom''])"
proof -
  let ?g = "example_group (Some (\<lambda>k. Some remote_peer))"
  have h: "''Tom'' \<noteq> []" "peers ?g = Some (\<lambda>k. Some remote_peer)"
    "(\<lambda>k. Some remote_peer) ''Tom'' = Some remote_peer"
    "remote_peer (name ?g) ''Tom'' = Inr [86]"
    by (simp_all add: example_group_def remote_peer_def)
  from remote_hit_not_cached [OF h(1) miss_example h(2,3,4)] miss_example [of "Some (\<lambda>k. Some remote_peer)" "''Tom''"]
  show ?thesis by (simp add: example_group_def remote_peer_def)
qed


text \<open>
  The fallback where the byte budget is not negative. When the key is not empty and
  misses the local cache, the picker selects a remote peer and the remote fetch returns
  an error (any error), \<^verbatim>\<open>Group.Get\<close> calls the loader. If the loader returns bytes,
  \<^verbatim>\<open>Get\<close> is the admission of a view of these bytes under the key, followed by the
  return of that view; on a consistent cache the admission returns, and when the entry
  fits the ceiling the next \<^verbatim>\<open>Get\<close> of the key is a local hit that calls nobody. If the
  loader returns an error, \<^verbatim>\<open>Get\<close> returns that error with the zero view and the group
  unchanged.
\<close>

theorem peer_failure_falls_back:
  assumes "k \<noteq> []" "fst (cache_get (mainCache g) k) = None"
    and "peers g = Some pk" "pk k = Some peer" "peer (name g) k = Inl e"
  shows "(\<forall>bytes. getter g k = Inr bytes \<longrightarrow>
            Group_Get g k =
              (case cache_add (mainCache g) k \<lparr> b = bytes \<rparr> of
                 None \<Rightarrow> None
               | Some s \<Rightarrow> Some ((\<lparr> b = bytes \<rparr>, None), g \<lparr> mainCache := s \<rparr>,
                                [CallPickPeer k, CallPeerGet (name g) k, CallGetter k])) \<and>
            (shell_ok (mainCache g) \<longrightarrow>
               (\<exists>s. cache_add (mainCache g) k \<lparr> b = bytes \<rparr> = Some s \<and> shell_ok s \<and>
                  (cacheBytes (mainCache g) = 0 \<or>
                   int (length k) + int (length bytes) \<le> cacheBytes (mainCache g) \<longrightarrow>
                     Group_Get (g \<lparr> mainCache := s \<rparr>) k =
                       Some ((\<lparr> b = bytes \<rparr>, None), g \<lparr> mainCache := s \<rparr>, []))))) \<and>
         (\<forall>e'. getter g k = Inl e' \<longrightarrow>
            Group_Get g k = Some ((\<lparr> b = [] \<rparr>, Some e'), g,
                                   [CallPickPeer k, CallPeerGet (name g) k, CallGetter k]))"
proof (intro conjI allI impI)
  fix bytes assume "getter g k = Inr bytes"
  with assms(3-5) show "Group_Get g k =
              (case cache_add (mainCache g) k \<lparr> b = bytes \<rparr> of
                 None \<Rightarrow> None
               | Some s \<Rightarrow> Some ((\<lparr> b = bytes \<rparr>, None), g \<lparr> mainCache := s \<rparr>,
                                [CallPickPeer k, CallPeerGet (name g) k, CallGetter k]))"
    by (simp add: Group_Get_miss [OF assms(1,2)] load_def getFromPeer_def getLocally_def
        populateCache_def after_calls_def cloneBytes_eq split: option.splits)
next
  fix bytes assume ok: "shell_ok (mainCache g)"
  show "\<exists>s. cache_add (mainCache g) k \<lparr> b = bytes \<rparr> = Some s \<and> shell_ok s \<and>
                  (cacheBytes (mainCache g) = 0 \<or>
                   int (length k) + int (length bytes) \<le> cacheBytes (mainCache g) \<longrightarrow>
                     Group_Get (g \<lparr> mainCache := s \<rparr>) k =
                       Some ((\<lparr> b = bytes \<rparr>, None), g \<lparr> mainCache := s \<rparr>, []))"
  proof (cases "cacheBytes (mainCache g) = 0 \<or>
                   int (length k) + int (length bytes) \<le> cacheBytes (mainCache g)")
    case False
    with cache_add_returns [OF ok, of k "\<lparr> b = bytes \<rparr>"] show ?thesis by auto
  next
    case True
    then have "cacheBytes (mainCache g) = 0 \<or>
        weight (Entry k \<lparr> b = bytes \<rparr>) \<le> cacheBytes (mainCache g)"
      by (simp add: weight_def Len_def)
    from cache_add_then_get [OF ok this]
    obtain s where s: "cache_add (mainCache g) k \<lparr> b = bytes \<rparr> = Some s" "shell_ok s"
      "cache_get s k = (Some \<lparr> b = bytes \<rparr>, s)" by auto
    have "Group_Get (g \<lparr> mainCache := s \<rparr>) k = Some ((\<lparr> b = bytes \<rparr>, None), g \<lparr> mainCache := s \<rparr>, [])"
      using assms(1) s(3) by (simp add: Group_Get_def)
    with s show ?thesis by simp
  qed
next
  fix e' assume "getter g k = Inl e'"
  with assms(3-5) show "Group_Get g k = Some ((\<lparr> b = [] \<rparr>, Some e'), g,
                                   [CallPickPeer k, CallPeerGet (name g) k, CallGetter k])"
    by (simp add: Group_Get_miss [OF assms(1,2)] load_def getFromPeer_def getLocally_def after_calls_def)
qed

theorem peer_failure_falls_back_witness:
  "''Tom'' \<noteq> [] \<and>
   fst (cache_get (mainCache (example_group (Some (\<lambda>k. Some failing_peer)))) ''Tom'') = None \<and>
   failing_peer ''scores'' ''Tom'' = Inl (Err ''connection refused'') \<and>
   shell_ok (mainCache (example_group (Some (\<lambda>k. Some failing_peer)))) \<and>
   (\<exists>s. cache_add (mainCache (example_group (Some (\<lambda>k. Some failing_peer)))) ''Tom''
           \<lparr> b = [54, 51, 48] \<rparr> = Some s \<and>
        Group_Get (example_group (Some (\<lambda>k. Some failing_peer))) ''Tom'' =
          Some ((\<lparr> b = [54, 51, 48] \<rparr>, None),
                example_group (Some (\<lambda>k. Some failing_peer)) \<lparr> mainCache := s \<rparr>,
                [CallPickPeer ''Tom'', CallPeerGet ''scores'' ''Tom'', CallGetter ''Tom'']) \<and>
        Group_Get (example_group (Some (\<lambda>k. Some failing_peer)) \<lparr> mainCache := s \<rparr>) ''Tom'' =
          Some ((\<lparr> b = [54, 51, 48] \<rparr>, None),
                example_group (Some (\<lambda>k. Some failing_peer)) \<lparr> mainCache := s \<rparr>, []))"
proof -
  let ?g = "example_group (Some (\<lambda>k. Some failing_peer))"
  have h: "''Tom'' \<noteq> []" "peers ?g = Some (\<lambda>k. Some failing_peer)"
    "(\<lambda>k. Some failing_peer) ''Tom'' = Some failing_peer"
    "failing_peer (name ?g) ''Tom'' = Inl (Err ''connection refused'')"
    by (simp_all add: example_group_def failing_peer_def)
  have gt: "getter ?g ''Tom'' = Inr [54, 51, 48]"
    by (simp add: example_group_def example_getter_def)
  have fits: "cacheBytes (mainCache ?g) = 0 \<or>
      int (length ''Tom'') + int (length [54, 51, 48 :: byte]) \<le> cacheBytes (mainCache ?g)"
    by (simp add: example_group_def)
  have nm: "name ?g = ''scores''" by (simp add: example_group_def)
  note t = peer_failure_falls_back [OF h(1) miss_example h(2,3,4), THEN conjunct1, rule_format, OF gt]
  note eq = t [THEN conjunct1]
  note ex = t [THEN conjunct2]
  from ex [rule_format, OF shell_ok_example] fits
  obtain s where s: "cache_add (mainCache ?g) ''Tom'' \<lparr> b = [54, 51, 48] \<rparr> = Some s"
    "Group_Get (?g \<lparr> mainCache := s \<rparr>) ''Tom'' =
       Some ((\<lparr> b = [54, 51, 48] \<rparr>, None), ?g \<lparr> mainCache := s \<rparr>, [])"
    by blast
  from eq s(1) have "Group_Get ?g ''Tom'' =
     Some ((\<lparr> b = [54, 51, 48] \<rparr>, None), ?g \<lparr> mainCache := s \<rparr>,
           [CallPickPeer ''Tom'', CallPeerGet ''scores'' ''Tom'', CallGetter ''Tom''])"
    by (simp add: nm)
  with s h(1) h(4) [unfolded nm] miss_example [of "Some (\<lambda>k. Some failing_peer)" "''Tom''"]
    shell_ok_example [of "Some (\<lambda>k. Some failing_peer)"]
  show ?thesis by blast
qed

text \<open>
  Claim C4 says that for every group \<^verbatim>\<open>Group.Get\<close> recovers from a peer failure and
  returns the loader's bytes, admitted to the local cache. The code does not for a group
  made with a negative byte budget: \<^verbatim>\<open>NewGroup("scores", -1, getter)\<close> with a picker
  registered whose peer fails. \<^verbatim>\<open>Get("Tom")\<close> misses the cache, the peer fetch fails, the
  loader returns its bytes, and the admission creates the engine \<^verbatim>\<open>New(-1, nil)\<close> whose
  \<^verbatim>\<open>Add\<close> never returns, so \<^verbatim>\<open>Get\<close> never returns.
\<close>

theorem peer_fallback_hangs:
  "(case NewGroup Map.empty ''scores'' (- 1) (Some example_getter) of
      Inl e \<Rightarrow> Inl e
    | Inr (g, groups) \<Rightarrow> RegisterPeers g (\<lambda>k. Some failing_peer)) = Inr negative_group \<and>
   fst (cache_get (mainCache negative_group) ''Tom'') = None \<and>
   failing_peer (name negative_group) ''Tom'' = Inl (Err ''connection refused'') \<and>
   getter negative_group ''Tom'' = Inr [54, 51, 48] \<and>
   Group_Get negative_group ''Tom'' = None"
proof (intro conjI)
  show "(case NewGroup Map.empty ''scores'' (- 1) (Some example_getter) of
      Inl e \<Rightarrow> Inl e
    | Inr (g, groups) \<Rightarrow> RegisterPeers g (\<lambda>k. Some failing_peer)) = Inr negative_group"
    by (simp add: NewGroup_def RegisterPeers_def negative_group_def Let_def)
  show m: "fst (cache_get (mainCache negative_group) ''Tom'') = None"
    by (simp add: negative_group_def cache_get_def)
  show "failing_peer (name negative_group) ''Tom'' = Inl (Err ''connection refused'')"
    by (simp add: failing_peer_def)
  show "getter negative_group ''Tom'' = Inr [54, 51, 48]"
    by (simp add: negative_group_def example_getter_def)
  have "Cache_Add (New (- 1) False) ''Tom'' \<lparr> b = [54, 51, 48] \<rparr> = None"
    by (rule Cache_Add_negative [OF linked_New counted_New]) (simp add: New_def)
  then have "cache_add (mainCache negative_group) ''Tom'' \<lparr> b = [54, 51, 48] \<rparr> = None"
    by (simp add: cache_add_def negative_group_def)
  then have "load negative_group ''Tom'' = None"
    by (simp add: load_def getFromPeer_def getLocally_def populateCache_def after_calls_def
        cloneBytes_eq negative_group_def failing_peer_def example_getter_def)
  moreover have "Group_Get negative_group ''Tom'' = load negative_group ''Tom''"
    by (rule Group_Get_miss [OF _ m]) simp
  ultimately show "Group_Get negative_group ''Tom'' = None" by simp
qed

text \<open>
  Claim C9: for a key that is not empty and not in the local cache, when the loader
  returns an error, \<^verbatim>\<open>getLocally\<close> returns that error with the zero \<^verbatim>\<open>ByteView\<close> and the
  group, and with it the local cache, exactly as it was, and \<^verbatim>\<open>Group.Get\<close> returns the
  same on every path that reaches the loader: with no peer picker, when the picker
  selects no remote peer, and when the remote fetch fails. Nothing is admitted and
  nothing is evicted. (On the one remaining path the remote fetch succeeds and the
  loader is not called.)
\<close>

theorem loader_error_propagates:
  assumes "k \<noteq> []" "fst (cache_get (mainCache g) k) = None" "getter g k = Inl e"
  shows "getLocally g k = Some ((\<lparr> b = [] \<rparr>, Some e), g, [CallGetter k]) \<and>
         (peers g = None \<longrightarrow>
            Group_Get g k = Some ((\<lparr> b = [] \<rparr>, Some e), g, [CallGetter k])) \<and>
         (\<forall>pk. peers g = Some pk \<and> pk k = None \<longrightarrow>
            Group_Get g k = Some ((\<lparr> b = [] \<rparr>, Some e), g, [CallPickPeer k, CallGetter k])) \<and>
         (\<forall>pk peer e'. peers g = Some pk \<and> pk k = Some peer \<and> peer (name g) k = Inl e' \<longrightarrow>
            Group_Get g k = Some ((\<lparr> b = [] \<rparr>, Some e), g,
                                   [CallPickPeer k, CallPeerGet (name g) k, CallGetter k])) \<and>
         (\<forall>pk peer bytes. peers g = Some pk \<and> pk k = Some peer \<and> peer (name g) k = Inr bytes \<longrightarrow>
            Group_Get g k = Some ((\<lparr> b = bytes \<rparr>, None), g,
                                   [CallPickPeer k, CallPeerGet (name g) k]))"
proof (intro conjI allI impI)
  show l: "getLocally g k = Some ((\<lparr> b = [] \<rparr>, Some e), g, [CallGetter k])"
    using assms(3) by (simp add: getLocally_def)
  note m = Group_Get_miss [OF assms(1,2)]
  {
    assume "peers g = None"
    then show "Group_Get g k = Some ((\<lparr> b = [] \<rparr>, Some e), g, [CallGetter k])"
      by (simp add: m load_def l)
  }
  {
    fix pk assume "peers g = Some pk \<and> pk k = None"
    then show "Group_Get g k = Some ((\<lparr> b = [] \<rparr>, Some e), g, [CallPickPeer k, CallGetter k])"
      by (simp add: m load_def l after_calls_def)
  }
  {
    fix pk peer e' assume "peers g = Some pk \<and> pk k = Some peer \<and> peer (name g) k = Inl e'"
    then show "Group_Get g k = Some ((\<lparr> b = [] \<rparr>, Some e), g,
                                   [CallPickPeer k, CallPeerGet (name g) k, CallGetter k])"
      by (simp add: m load_def l after_calls_def getFromPeer_def)
  }
  {
    fix pk peer bytes assume "peers g = Some pk \<and> pk k = Some peer \<and> peer (name g) k = Inr bytes"
    then show "Group_Get g k = Some ((\<lparr> b = bytes \<rparr>, None), g,
                                   [CallPickPeer k, CallPeerGet (name g) k])"
      by (simp add: m load_def getFromPeer_def)
  }
qed

theorem loader_error_propagates_witness:
  "''Jack'' \<noteq> [] \<and> fst (cache_get (mainCache (example_group None)) ''Jack'') = None \<and>
   getter (example_group None) ''Jack'' = Inl (Err ''Jack not exist'') \<and>
   Group_Get (example_group None) ''Jack'' =
     Some ((\<lparr> b = [] \<rparr>, Some (Err ''Jack not exist'')), example_group None, [CallGetter ''Jack'']) \<and>
   Group_Get (example_group (Some (\<lambda>k. None))) ''Jack'' =
     Some ((\<lparr> b = [] \<rparr>, Some (Err ''Jack not exist'')), example_group (Some (\<lambda>k. None)),
           [CallPickPeer ''Jack'', CallGetter ''Jack'']) \<and>
   Group_Get (example_group (Some (\<lambda>k. Some failing_peer))) ''Jack'' =
     Some ((\<lparr> b = [] \<rparr>, Some (Err ''Jack not exist'')), example_group (Some (\<lambda>k. Some failing_peer)),
           [CallPickPeer ''Jack'', CallPeerGet ''scores'' ''Jack'', CallGetter ''Jack''])"
proof -
  have h: "''Jack'' \<noteq> []" by simp
  have gt: "getter (example_group pk) ''Jack'' = Inl (Err ''Jack not exist'')" for pk
    by (simp add: example_group_def example_getter_def)
  note t = loader_error_propagates [OF h miss_example gt]
  have p0: "peers (example_group None) = None" by (simp add: example_group_def)
  have p1: "peers (example_group (Some (\<lambda>k. None))) = Some (\<lambda>k. None) \<and> (\<lambda>k. None) ''Jack'' = None"
    by (simp add: example_group_def)
  have p2: "peers (example_group (Some (\<lambda>k. Some failing_peer))) = Some (\<lambda>k. Some failing_peer) \<and>
            (\<lambda>k. Some failing_peer) ''Jack'' = Some failing_peer \<and>
            failing_peer (name (example_group (Some (\<lambda>k. Some failing_peer)))) ''Jack''
              = Inl (Err ''connection refused'')"
    by (simp add: example_group_def failing_peer_def)
  have nm: "name (example_group pk) = ''scores''" for pk by (simp add: example_group_def)
  from t [of None, THEN conjunct2, THEN conjunct1, rule_format, OF p0]
  have r0: "Group_Get (example_group None) ''Jack'' =
     Some ((\<lparr> b = [] \<rparr>, Some (Err ''Jack not exist'')), example_group None, [CallGetter ''Jack''])" .
  from t [of "Some (\<lambda>k. None)", THEN conjunct2, THEN conjunct2, THEN conjunct1, rule_format, OF p1]
  have r1: "Group_Get (example_group (Some (\<lambda>k. None))) ''Jack'' =
     Some ((\<lparr> b = [] \<rparr>, Some (Err ''Jack not exist'')), example_group (Some (\<lambda>k. None)),
           [CallPickPeer ''Jack'', CallGetter ''Jack''])" .
  from t [of "Some (\<lambda>k. Some failing_peer)", THEN conjunct2, THEN conjunct2, THEN conjunct2,
      THEN conjunct1, rule_format, OF p2]
  have r2: "Group_Get (example_group (Some (\<lambda>k. Some failing_peer))) ''Jack'' =
     Some ((\<lparr> b = [] \<rparr>, Some (Err ''Jack not exist'')), example_group (Some (\<lambda>k. Some failing_peer)),
           [CallPickPeer ''Jack'', CallPeerGet ''scores'' ''Jack'', CallGetter ''Jack''])"
    by (simp add: nm)
  from h miss_example [of None "''Jack''"] gt [of None] r0 r1 r2 show ?thesis by blast
qed

lemma SplitN2_no_sep:
  assumes "sep \<notin> set s"
  shows "SplitN2 s sep = [s]"
proof -
  have d: "dropWhile (\<lambda>c. c \<noteq> sep) s = []" using assms by (induction s) auto
  show ?thesis unfolding SplitN2_def d by simp
qed

lemma SplitN2_sep:
  assumes "sep \<notin> set x"
  shows "SplitN2 (x @ sep # y) sep = [x, y]"
proof -
  have "dropWhile (\<lambda>c. c \<noteq> sep) (x @ sep # y) = sep # y" using assms by (induction x) auto
  moreover have "takeWhile (\<lambda>c. c \<noteq> sep) (x @ sep # y) = x" using assms by (induction x) auto
  ultimately show ?thesis by (simp add: SplitN2_def)
qed

text \<open>
  Claim C7, with the empty key put right: for a path that starts with \<^verbatim>\<open>basePath\<close>, the
  server answers 400 \<^verbatim>\<open>bad request\<close> when the remainder has no \<^verbatim>\<open>/\<close>. When the remainder
  is \<open>groupName/key\<close>, cut at the first \<^verbatim>\<open>/\<close>, it answers 404 with
  \<^verbatim>\<open>no such group: <name>\<close> if the group is not registered, 500 with
  \<^verbatim>\<open>key is required\<close> if the group is registered and the key is empty, and never 400.
\<close>

theorem ServeHTTP_status:
  assumes "HasPrefix path (basePath p)"
  shows "(CHR ''/'' \<notin> set (drop (length (basePath p)) path) \<longrightarrow>
            ServeHTTP p groups path = Some (Inr (HttpError ''bad request'' 400, groups))) \<and>
         (\<forall>gn k. drop (length (basePath p)) path = gn @ CHR ''/'' # k \<and> CHR ''/'' \<notin> set gn \<longrightarrow>
            (groups gn = None \<longrightarrow>
               ServeHTTP p groups path = Some (Inr (HttpError (''no such group: '' @ gn) 404, groups))) \<and>
            (\<forall>g. groups gn = Some g \<and> k = [] \<longrightarrow>
               ServeHTTP p groups path = Some (Inr (HttpError ''key is required'' 500, groups))) \<and>
            (\<forall>msg r. ServeHTTP p groups path \<noteq> Some (Inr (HttpError msg 400, r))))"
proof (intro conjI allI impI)
  assume "CHR ''/'' \<notin> set (drop (length (basePath p)) path)"
  then show "ServeHTTP p groups path = Some (Inr (HttpError ''bad request'' 400, groups))"
    using assms by (simp add: ServeHTTP_def SplitN2_no_sep)
next
  fix gn k
  assume a: "drop (length (basePath p)) path = gn @ CHR ''/'' # k \<and> CHR ''/'' \<notin> set gn"
  then have sp: "SplitN2 (drop (length (basePath p)) path) CHR ''/'' = [gn, k]"
    by (simp add: SplitN2_sep)
  {
    assume "groups gn = None"
    then show "ServeHTTP p groups path = Some (Inr (HttpError (''no such group: '' @ gn) 404, groups))"
      using assms sp by (simp add: ServeHTTP_def GetGroup_def)
  }
  {
    fix g assume "groups gn = Some g \<and> k = []"
    then show "ServeHTTP p groups path = Some (Inr (HttpError ''key is required'' 500, groups))"
      using assms sp by (auto simp: ServeHTTP_def GetGroup_def Group_Get_def fun_upd_idem)
  }
  {
    fix msg r
    show "ServeHTTP p groups path \<noteq> Some (Inr (HttpError msg 400, r))"
      using assms sp
      by (auto simp: ServeHTTP_def GetGroup_def split: option.splits prod.splits)
  }
qed

theorem ServeHTTP_status_witness:
  "HasPrefix ''/_geecache/scores'' (basePath example_pool) \<and>
   ServeHTTP example_pool example_groups ''/_geecache/scores'' =
     Some (Inr (HttpError ''bad request'' 400, example_groups)) \<and>
   HasPrefix ''/_geecache/grades/Tom'' (basePath example_pool) \<and>
   ServeHTTP example_pool example_groups ''/_geecache/grades/Tom'' =
     Some (Inr (HttpError ''no such group: grades'' 404, example_groups))"
proof -
  have p1: "HasPrefix ''/_geecache/scores'' (basePath example_pool)"
    and p2: "HasPrefix ''/_geecache/grades/Tom'' (basePath example_pool)"
    by (simp_all add: HasPrefix_def example_pool_def NewHTTPPool_def defaultBasePath_def)
  have d1: "drop (length (basePath example_pool)) ''/_geecache/scores'' = ''scores''"
    and d2: "drop (length (basePath example_pool)) ''/_geecache/grades/Tom'' = ''grades'' @ CHR ''/'' # ''Tom''"
    by (simp_all add: example_pool_def NewHTTPPool_def defaultBasePath_def)
  have n: "example_groups ''grades'' = None" by (simp add: example_groups_def)
  from ServeHTTP_status [OF p1, of example_groups] d1
  have r1: "ServeHTTP example_pool example_groups ''/_geecache/scores'' =
     Some (Inr (HttpError ''bad request'' 400, example_groups))" by simp
  have ns: "CHR ''/'' \<notin> set ''grades''" by simp
  from ServeHTTP_status [OF p2, of example_groups, THEN conjunct2, rule_format, of "''grades''" "''Tom''",
      THEN conjunct1, rule_format] d2 n ns
  have r2: "ServeHTTP example_pool example_groups ''/_geecache/grades/Tom'' =
     Some (Inr (HttpError ''no such group: grades'' 404, example_groups))"
    by simp
  from p1 p2 r1 r2 show ?thesis by blast
qed

text \<open>
  Claim C7 as stated fails for an empty key segment: the request
  \<^verbatim>\<open>/_geecache/scores/\<close> for the registered group \<^verbatim>\<open>scores\<close> splits into two pieces, the
  second one empty, and is answered with status 500 and \<^verbatim>\<open>key is required\<close>, the error of
  \<^verbatim>\<open>Group.Get\<close>, not with 400.
\<close>

theorem ServeHTTP_empty_key_counterexample:
  "HasPrefix ''/_geecache/scores/'' (basePath example_pool) \<and>
   ServeHTTP example_pool example_groups ''/_geecache/scores/'' =
     Some (Inr (HttpError ''key is required'' 500, example_groups))"
  by (simp add: HasPrefix_def example_pool_def NewHTTPPool_def defaultBasePath_def ServeHTTP_def
      SplitN2_def GetGroup_def example_groups_def Group_Get_def)

end
